theory Spec2Isabelle
  imports Main
begin

section \<open>Machine integers and vector reads\<close>

text \<open>
  The element type of every vector in the sources is \<open>int\<close>. Elements are only compared,
  never added, so they are modelled by their integer values; \<open>int_lowest\<close> and \<open>int_max\<close>
  are \<^verbatim>\<open>std::numeric_limits<int>::lowest()\<close> and \<^verbatim>\<open>std::numeric_limits<int>::max()\<close>.
\<close>

definition int_lowest :: int where
  "int_lowest = - (2 ^ 31)"

definition int_max :: int where
  "int_max = 2 ^ 31 - 1"

text \<open>
  Indices are C++ \<open>int\<close>s. The conversion of a \<open>size_t\<close> (\<open>nums.size() - 1\<close>,
  \<open>static_cast<int>(nums.size())\<close>, a \<open>std::distance\<close>) to \<open>int\<close> keeps the low 32
  bits; \<open>to_int32\<close> is that conversion. For a vector of fewer than \<open>2 ^ 31\<close> elements it
  changes nothing.
\<close>

definition to_int32 :: "int \<Rightarrow> int" where
  "to_int32 x = (x + 2 ^ 31) mod 2 ^ 32 - 2 ^ 31"

text \<open>
  Arithmetic on \<open>int\<close> has no wrap-around: a result outside the range of \<open>int\<close> is
  undefined behaviour. \<open>int_op x\<close> is the outcome of an \<open>int\<close> operation whose exact
  result is \<open>x\<close>: the value, or \<open>None\<close> on overflow. Like a read outside a vector, a
  \<open>None\<close> is passed on to the caller unchanged.
\<close>

definition int_op :: "int \<Rightarrow> int option" where
  "int_op x = (if int_lowest \<le> x \<and> x \<le> int_max then Some x else None)"

text \<open>
  \<open>arr[i]\<close> on a \<open>std::vector\<close> is unchecked: reading outside the vector is undefined
  behaviour. Every read of the model goes through \<open>at_index\<close>, which returns \<open>None\<close> there,
  and a \<open>None\<close> is passed on to the caller unchanged.
\<close>

definition at_index :: "int list \<Rightarrow> int \<Rightarrow> int option" where
  "at_index arr i = (if 0 \<le> i \<and> i < int (length arr) then Some (arr ! nat i) else None)"

section \<open>\<open>search\<close>: a target in a rotated sorted array\<close>

text \<open>
  The \<open>while (left <= right)\<close> loop of \<open>search\<close>, one recursive call per iteration.
  \<open>midpoint\<close> is \<open>left + (right - left) / 2\<close>; it is computed only for \<open>left \<le> right\<close>
  (and \<open>left < right\<close> in \<open>findPeakIndex\<close>), where \<open>right - left\<close> is not negative and
  the truncating division of C++ is \<open>div\<close>. \<open>nums[right]\<close> is read only when
  \<open>target > nums[mid]\<close> holds, as the short-circuit \<open>&&\<close> does. The result is the
  returned index, \<open>- 1\<close> for not found.
\<close>

definition midpoint :: "int \<Rightarrow> int \<Rightarrow> int option" where
  "midpoint left right =
     (case int_op (right - left) of
        None \<Rightarrow> None
      | Some d \<Rightarrow> int_op (left + d div 2))"

function search_loop :: "int list \<Rightarrow> int \<Rightarrow> int \<Rightarrow> int \<Rightarrow> int option" where
  "search_loop nums target left right =
     (if left \<le> right then
        (case midpoint left right of
           None \<Rightarrow> None
         | Some mid \<Rightarrow>
             (case at_index nums mid of
                None \<Rightarrow> None
              | Some m \<Rightarrow>
                  if m = target then Some mid
                  else
                    (case at_index nums left of
                       None \<Rightarrow> None
                     | Some l \<Rightarrow>
                         if l \<le> m then
                           (if target \<ge> l \<and> target < m then
                              (case int_op (mid - 1) of
                                 None \<Rightarrow> None
                               | Some right' \<Rightarrow> search_loop nums target left right')
                            else
                              (case int_op (mid + 1) of
                                 None \<Rightarrow> None
                               | Some left' \<Rightarrow> search_loop nums target left' right))
                         else if target > m then
                           (case at_index nums right of
                              None \<Rightarrow> None
                            | Some r \<Rightarrow>
                                if target \<le> r then
                                  (case int_op (mid + 1) of
                                     None \<Rightarrow> None
                                   | Some left' \<Rightarrow> search_loop nums target left' right)
                                else
                                  (case int_op (mid - 1) of
                                     None \<Rightarrow> None
                                   | Some right' \<Rightarrow> search_loop nums target left right'))
                         else
                           (case int_op (mid - 1) of
                              None \<Rightarrow> None
                            | Some right' \<Rightarrow> search_loop nums target left right'))))
      else Some (- 1))"
  by pat_completeness auto
termination
  by (relation "measure (\<lambda>(nums, target, left, right). nat (right - left + 1))")
     (auto simp: midpoint_def int_op_def split: if_splits option.splits)

declare search_loop.simps [simp del]

definition search :: "int list \<Rightarrow> int \<Rightarrow> int option" where
  "search nums target = search_loop nums target 0 (to_int32 (int (length nums) - 1))"

section \<open>\<open>findTargetInMountainArray\<close>\<close>

text \<open>
  The \<open>while (left < right)\<close> loop of \<open>findPeakIndex\<close>; \<open>next\<close> is the \<open>mid + 1\<close> of
  \<open>arr[mid + 1]\<close> and of \<open>left = mid + 1\<close>.
\<close>

function findPeakIndex_loop :: "int list \<Rightarrow> int \<Rightarrow> int \<Rightarrow> int option" where
  "findPeakIndex_loop arr left right =
     (if left < right then
        (case midpoint left right of
           None \<Rightarrow> None
         | Some mid \<Rightarrow>
             (case at_index arr mid of
                None \<Rightarrow> None
              | Some a \<Rightarrow>
                  (case int_op (mid + 1) of
                     None \<Rightarrow> None
                   | Some next \<Rightarrow>
                       (case at_index arr next of
                          None \<Rightarrow> None
                        | Some b \<Rightarrow>
                            if a < b then findPeakIndex_loop arr next right
                            else findPeakIndex_loop arr left mid))))
      else Some left)"
  by pat_completeness auto
termination
  by (relation "measure (\<lambda>(arr, left, right). nat (right - left))")
     (auto simp: midpoint_def int_op_def split: if_splits option.splits)

declare findPeakIndex_loop.simps [simp del]

definition findPeakIndex :: "int list \<Rightarrow> int option" where
  "findPeakIndex arr = findPeakIndex_loop arr 0 (to_int32 (int (length arr) - 1))"

text \<open>
  \<open>std::lower_bound(first, last, value, comp)\<close> is library code; it is modelled by the
  usual halving loop over the length of the range,
  \<^verbatim>\<open>while (len > 0) { half = len >> 1; middle = first + half;
    if (comp(*middle, value)) { first = middle + 1; len = len - half - 1; } else len = half; }\<close>
  with iterators as positions counted from \<open>arr.begin()\<close>. The range must lie inside the
  vector; a call with another range is undefined behaviour and gives \<open>None\<close>.
\<close>

function std_lower_bound_loop ::
  "(int \<Rightarrow> int \<Rightarrow> bool) \<Rightarrow> int list \<Rightarrow> int \<Rightarrow> int \<Rightarrow> int \<Rightarrow> int option" where
  "std_lower_bound_loop cmp arr v first len =
     (if 0 < len then
        let half = len div 2; middle = first + half in
        (case at_index arr middle of
           None \<Rightarrow> None
         | Some x \<Rightarrow>
             if cmp x v then std_lower_bound_loop cmp arr v (middle + 1) (len - half - 1)
             else std_lower_bound_loop cmp arr v first half)
      else Some first)"
  by pat_completeness auto
termination
  by (relation "measure (\<lambda>(cmp, arr, v, first, len). nat len)") auto

declare std_lower_bound_loop.simps [simp del]

definition std_lower_bound ::
  "int list \<Rightarrow> int \<Rightarrow> int \<Rightarrow> int \<Rightarrow> (int \<Rightarrow> int \<Rightarrow> bool) \<Rightarrow> int option" where
  "std_lower_bound arr first_it last_it v cmp =
     (if 0 \<le> first_it \<and> first_it \<le> last_it \<and> last_it \<le> int (length arr)
      then std_lower_bound_loop cmp arr v first_it (last_it - first_it)
      else None)"

text \<open>
  \<open>binarySearchAscending\<close> and \<open>binarySearchDescending\<close> search
  \<open>[arr.begin() + left, arr.begin() + right + 1)\<close>, the second with \<open>std::greater<int>()\<close>.
  \<open>*it\<close> is read only when \<open>it\<close> is not the end of the range.
\<close>

definition binarySearchAscending :: "int list \<Rightarrow> int \<Rightarrow> int \<Rightarrow> int \<Rightarrow> int option" where
  "binarySearchAscending arr target left right =
     (case std_lower_bound arr left (right + 1) target (<) of
        None \<Rightarrow> None
      | Some it \<Rightarrow>
          if it \<noteq> right + 1 then
            (case at_index arr it of
               None \<Rightarrow> None
             | Some x \<Rightarrow> if x = target then Some (to_int32 it) else Some (- 1))
          else Some (- 1))"

definition binarySearchDescending :: "int list \<Rightarrow> int \<Rightarrow> int \<Rightarrow> int \<Rightarrow> int option" where
  "binarySearchDescending arr target left right =
     (case std_lower_bound arr left (right + 1) target (>) of
        None \<Rightarrow> None
      | Some it \<Rightarrow>
          if it \<noteq> right + 1 then
            (case at_index arr it of
               None \<Rightarrow> None
             | Some x \<Rightarrow> if x = target then Some (to_int32 it) else Some (- 1))
          else Some (- 1))"

definition findTargetInMountainArray :: "int list \<Rightarrow> int \<Rightarrow> int option" where
  "findTargetInMountainArray arr target =
     (if arr = [] then Some (- 1)
      else
        (case findPeakIndex arr of
           None \<Rightarrow> None
         | Some peakIndex \<Rightarrow>
             (case binarySearchAscending arr target 0 peakIndex of
                None \<Rightarrow> None
              | Some result \<Rightarrow>
                  if result \<noteq> - 1 then Some result
                  else
                    (case int_op (peakIndex + 1) of
                       None \<Rightarrow> None
                     | Some first \<Rightarrow>
                         binarySearchDescending arr target first
                           (to_int32 (int (length arr) - 1))))))"

section \<open>Binary trees: \<open>TreeNode\<close>, \<open>isValidBST\<close>, \<open>sortedArrayToBST\<close>\<close>

text \<open>
  \<^verbatim>\<open>template<typename T> struct TreeNode { T val; std::unique_ptr<TreeNode<T>> left, right; }\<close>.
  A \<open>unique_ptr\<close> is either null or owns exactly one node, so a pointer to a node is an
  \<open>option\<close> and a raw \<open>TreeNode<T>*\<close> that is known to be non-null is a \<open>TreeNode\<close>.
  The element type only needs the comparisons of the \<open>Ordered\<close> concept; it is a linear order.
\<close>

datatype 'a TreeNode =
  TreeNode (val: 'a) (left: "'a TreeNode option") (right: "'a TreeNode option")

text \<open>The traversals the specification speaks about; \<open>preorder\<close> is what \<open>printTree\<close> prints.\<close>

fun inorder_node :: "'a TreeNode \<Rightarrow> 'a list" and inorder :: "'a TreeNode option \<Rightarrow> 'a list" where
  "inorder_node (TreeNode v l r) = inorder l @ v # inorder r"
| "inorder None = []"
| "inorder (Some n) = inorder_node n"

fun preorder_node :: "'a TreeNode \<Rightarrow> 'a list" and preorder :: "'a TreeNode option \<Rightarrow> 'a list" where
  "preorder_node (TreeNode v l r) = v # preorder l @ preorder r"
| "preorder None = []"
| "preorder (Some n) = preorder_node n"

fun count_node :: "'a TreeNode \<Rightarrow> nat" and count_nodes :: "'a TreeNode option \<Rightarrow> nat" where
  "count_node (TreeNode v l r) = Suc (count_nodes l + count_nodes r)"
| "count_nodes None = 0"
| "count_nodes (Some n) = count_node n"

text \<open>
  The inner loop of \<open>isValidBST\<close>:
  \<^verbatim>\<open>while (curr != nullptr) { stack.push(curr); curr = curr->left.get(); }\<close>
  The stack is a list with its top at the head; the loop leaves \<open>curr\<close> null.
\<close>

fun push_left :: "'a TreeNode option \<Rightarrow> 'a TreeNode list \<Rightarrow> 'a TreeNode list" where
  "push_left None stack = stack"
| "push_left (Some (TreeNode v l r)) stack = push_left l (TreeNode v l r # stack)"

text \<open>
  What the traversal still has to visit, as a number of nodes and as a value sequence:
  the subtree at \<open>cur\<close>, then every stacked node followed by its right subtree.
\<close>

definition pending :: "'a TreeNode option \<Rightarrow> 'a TreeNode list \<Rightarrow> nat" where
  "pending cur stack = count_nodes cur + sum_list (map (\<lambda>n. Suc (count_nodes (right n))) stack)"

definition remaining :: "'a TreeNode option \<Rightarrow> 'a TreeNode list \<Rightarrow> 'a list" where
  "remaining cur stack = inorder cur @ concat (map (\<lambda>n. val n # inorder (right n)) stack)"

definition seen :: "'a TreeNode option \<Rightarrow> 'a list" where
  "seen prev = (case prev of None \<Rightarrow> [] | Some p \<Rightarrow> [val p])"

text \<open>
  The outer loop of \<open>isValidBST\<close>, one recursive call per iteration; \<open>cur\<close> is the
  source's \<open>curr\<close>. The result is \<open>None\<close> where the source would call \<open>stack.top()\<close>
  on an empty stack (undefined behaviour), \<open>Some False\<close> for the early \<open>return false\<close>
  and \<open>Some True\<close> when the loop ends. Every iteration pops one node, so the number of
  pending nodes goes down by one.
\<close>

function isValidBST_loop ::
  "'a::linorder TreeNode option \<Rightarrow> 'a TreeNode list \<Rightarrow> 'a TreeNode option \<Rightarrow> bool option" where
  "isValidBST_loop cur stack prev =
     (if cur \<noteq> None \<or> stack \<noteq> [] then
        (case push_left cur stack of
           [] \<Rightarrow> None
         | n # rest \<Rightarrow>
             if (case prev of None \<Rightarrow> False | Some p \<Rightarrow> val n \<le> val p) then Some False
             else isValidBST_loop (right n) rest (Some n))
      else Some True)"
  by pat_completeness auto
termination
proof (relation "measure (\<lambda>(cur, stack, prev). pending cur stack)")
  show "wf (measure (\<lambda>(cur, stack, prev). pending cur stack))"
    by simp
next
  fix cur :: "'a TreeNode option" and stack prev n rest
  assume pl: "push_left cur stack = n # rest"
  have "pending None (push_left c s) = pending c s" for c :: "'a TreeNode option" and s
    by (induction c s rule: push_left.induct) (simp_all add: pending_def)
  from this [of cur stack] have "pending cur stack = pending None (n # rest)"
    using pl by simp
  then have "pending (right n) rest < pending cur stack"
    by (simp add: pending_def)
  then show "((right n, rest, Some n), cur, stack, prev)
               \<in> measure (\<lambda>(cur, stack, prev). pending cur stack)"
    by simp
qed

declare isValidBST_loop.simps [simp del]

definition isValidBST :: "'a::linorder TreeNode option \<Rightarrow> bool option" where
  "isValidBST root = isValidBST_loop root [] None"

text \<open>
  \<open>build\<close> as instantiated in the source, at \<open>T = int\<close>. The cursor \<open>int& index\<close> is
  threaded through the calls: \<open>build\<close> returns the subtree together with the cursor it
  leaves behind. The cursor starts at \<open>0\<close> and is only incremented, after the guard has
  found it below \<open>static_cast<int>(nums.size())\<close>; it is a natural number, and the read
  \<open>nums[index]\<close> that follows the guard is inside the vector.
\<close>

function build :: "int list \<Rightarrow> nat \<Rightarrow> int \<Rightarrow> int \<Rightarrow> int TreeNode option \<times> nat" where
  "build nums index lower_bound upper_bound =
     (if int index \<ge> to_int32 (int (length nums)) then (None, index)
      else
        let v = nums ! index in
        if v \<le> lower_bound \<or> v \<ge> upper_bound then (None, index)
        else
          (case build nums (index + 1) lower_bound v of
             (l, index1) \<Rightarrow>
               (case build nums index1 v upper_bound of
                  (r, index2) \<Rightarrow> (Some (TreeNode v l r), index2))))"
  by pat_completeness auto
termination
  by (relation "measure (\<lambda>(nums, index, lower_bound, upper_bound). nat (upper_bound - lower_bound))")
     auto

declare build.simps [simp del]

definition sortedArrayToBST :: "int list \<Rightarrow> int TreeNode option" where
  "sortedArrayToBST nums =
     (if nums = [] then None else fst (build nums 0 int_lowest int_max))"

section \<open>The shapes of input the specification names\<close>

text \<open>
  An ascending array of distinct integers rotated by \<open>k\<close> is \<open>rotate k xs\<close> for a strictly
  ascending \<open>xs\<close>. \<open>rotated_at nums p\<close> describes the same arrays by the length \<open>p\<close> of
  the first run: undoing the rotation gives a strictly ascending list.
\<close>

definition rotated_at :: "int list \<Rightarrow> nat \<Rightarrow> bool" where
  "rotated_at nums p \<longleftrightarrow> p \<le> length nums \<and> sorted_wrt (<) (drop p nums @ take p nums)"

text \<open>
  A mountain array with its peak at index \<open>p\<close>: strictly ascending up to and including
  \<open>p\<close>, strictly descending from \<open>p\<close> on. The peak may be the first or the last index.
\<close>

definition mountain_at :: "int list \<Rightarrow> nat \<Rightarrow> bool" where
  "mountain_at arr p \<longleftrightarrow>
     p < length arr \<and> sorted_wrt (<) (take (Suc p) arr) \<and> sorted_wrt (>) (drop p arr)"

text \<open>
  The \<open>n\<close> consecutive integers from \<open>a\<close> on, a strictly ascending vector of any size.
\<close>

definition ascending_from :: "int \<Rightarrow> nat \<Rightarrow> int list" where
  "ascending_from a n = map (\<lambda>k. a + int k) [0..<n]"

text \<open>
  Where \<open>build\<close> stops: the input after a subtree is exhausted, or its next value lies
  outside the open interval of the subtree.
\<close>

definition stops :: "int list \<Rightarrow> int \<Rightarrow> int \<Rightarrow> bool" where
  "stops rest lo hi \<longleftrightarrow> (case rest of [] \<Rightarrow> True | x # _ \<Rightarrow> x \<le> lo \<or> hi \<le> x)"

section \<open>Conversions and reads inside the range\<close>

text \<open>
  For sizes below \<open>2 ^ 31\<close> the conversion to \<open>int\<close> is the identity, and a read at an
  index inside the vector succeeds.
\<close>

lemma to_int32_id: "- (2 ^ 31) \<le> x \<Longrightarrow> x < 2 ^ 31 \<Longrightarrow> to_int32 x = x"
  by (simp add: to_int32_def)

lemma at_index_Some: "0 \<le> i \<Longrightarrow> i < int (length arr) \<Longrightarrow> at_index arr i = Some (arr ! nat i)"
  by (simp add: at_index_def)

lemma int_op_Some: "- (2 ^ 31) \<le> x \<Longrightarrow> x < 2 ^ 31 \<Longrightarrow> int_op x = Some x"
  by (simp add: int_op_def int_lowest_def int_max_def)

lemma midpoint_Some:
  assumes "0 \<le> l" "l \<le> r" "r < 2 ^ 31"
  shows "midpoint l r = Some (l + (r - l) div 2)"
proof -
  have "int_op (r - l) = Some (r - l)"
    using assms by (intro int_op_Some) auto
  moreover have "int_op (l + (r - l) div 2) = Some (l + (r - l) div 2)"
    using assms by (intro int_op_Some) auto
  ultimately show ?thesis by (simp add: midpoint_def)
qed

lemma size_minus_one:
  "length arr < 2 ^ 31 \<Longrightarrow> to_int32 (int (length arr) - 1) = int (length arr) - 1"
  by (rule to_int32_id) auto

section \<open>Vectors of \<open>2 ^ 31\<close> elements and more\<close>

text \<open>
  \<open>ascending_from a n\<close> is strictly ascending and has \<open>n\<close> elements; with one smaller
  element appended it is a mountain whose peak is its last ascending element.
\<close>

lemma length_ascending_from: "length (ascending_from a n) = n"
  by (simp add: ascending_from_def)

lemma nth_ascending_from: "i < n \<Longrightarrow> ascending_from a n ! i = a + int i"
  by (simp add: ascending_from_def)

lemma sorted_ascending_from: "sorted_wrt (<) (ascending_from a n)"
  by (simp add: sorted_wrt_iff_nth_less length_ascending_from nth_ascending_from)

lemma last_ascending_from: "0 < n \<Longrightarrow> last (ascending_from a n) = a + int (n - 1)"
  by (simp add: last_conv_nth length_ascending_from nth_ascending_from
      flip: length_greater_0_conv)

lemma mountain_snoc:
  assumes "sorted_wrt (<) xs" "xs \<noteq> []" "x < last xs"
  shows "mountain_at (xs @ [x]) (length xs - 1)"
proof -
  have "take (Suc (length xs - 1)) (xs @ [x]) = xs"
    using assms(2) by simp
  moreover have "drop (length xs - 1) xs = [last xs]"
    using assms(2) by (metis append_butlast_last_id append_eq_conv_conj length_butlast)
  then have "drop (length xs - 1) (xs @ [x]) = [last xs, x]"
    by simp
  ultimately show ?thesis
    using assms by (simp add: mountain_at_def)
qed

text \<open>
  With \<open>2 ^ 31 + 1\<close> elements \<open>nums.size() - 1\<close> converts to the lowest \<open>int\<close>. The
  loops of \<open>search\<close> and \<open>findPeakIndex\<close> are not entered: \<open>search\<close> returns \<open>- 1\<close>
  whatever the vector holds, \<open>findPeakIndex\<close> returns \<open>0\<close>, and the descending search is
  called with a range that ends before the vector begins.
\<close>

lemma huge_search_miss:
  assumes "length nums = 2147483649"
  shows "search nums target = Some (- 1)"
proof -
  have "to_int32 (int (length nums) - 1) = - 2147483648"
    using assms by (simp add: to_int32_def)
  moreover have "search_loop nums target 0 (- 2147483648) = Some (- 1)"
    by (subst search_loop.simps) simp
  ultimately show ?thesis by (simp add: search_def)
qed

lemma huge_mountain_fault:
  assumes len: "length arr = 2147483649" and first: "arr ! 0 < target"
  shows "findTargetInMountainArray arr target = None"
proof -
  have ne: "arr \<noteq> []" using len by auto
  have size: "to_int32 (int (length arr) - 1) = - 2147483648"
    using len by (simp add: to_int32_def)
  have "findPeakIndex_loop arr 0 (- 2147483648) = Some 0"
    by (subst findPeakIndex_loop.simps) simp
  then have pk: "findPeakIndex arr = Some 0"
    by (simp add: findPeakIndex_def size)
  have rd: "at_index arr 0 = Some (arr ! 0)"
    using len by (simp add: at_index_def)
  have "std_lower_bound_loop (<) arr target 1 0 = Some 1"
    by (subst std_lower_bound_loop.simps) simp
  then have "std_lower_bound_loop (<) arr target 0 1 = Some 1"
    using rd first by (subst std_lower_bound_loop.simps) simp
  then have "std_lower_bound arr 0 1 target (<) = Some 1"
    using len by (simp add: std_lower_bound_def)
  then have asc: "binarySearchAscending arr target 0 0 = Some (- 1)"
    by (simp add: binarySearchAscending_def)
  have io: "int_op (0 + 1) = Some 1"
    by (simp add: int_op_def int_lowest_def int_max_def)
  have "std_lower_bound arr 1 (- 2147483648 + 1) target (>) = None"
    by (simp add: std_lower_bound_def)
  then have desc: "binarySearchDescending arr target 1 (- 2147483648) = None"
    by (simp add: binarySearchDescending_def)
  show ?thesis
    using ne pk asc io desc size by (simp add: findTargetInMountainArray_def)
qed



section \<open>Rotated sorted search\<close>

text \<open>
  \<open>rotated_at nums p\<close> by indices: both runs ascend strictly, and every element of the
  second run is below every element of the first.
\<close>

lemma rotated_first_run:
  assumes "rotated_at nums p" "i < j" "j < p"
  shows "nums ! i < nums ! j"
proof -
  have "sorted_wrt (<) (take p nums)" "p \<le> length nums"
    using assms(1) by (auto simp: rotated_at_def sorted_wrt_append)
  then show ?thesis
    using assms(2,3) sorted_wrt_nth_less [of "(<)" "take p nums" i j] by simp
qed

lemma rotated_second_run:
  assumes "rotated_at nums p" "p \<le> i" "i < j" "j < length nums"
  shows "nums ! i < nums ! j"
proof -
  have "sorted_wrt (<) (drop p nums)" "p \<le> length nums"
    using assms(1) by (auto simp: rotated_at_def sorted_wrt_append)
  then show ?thesis
    using assms(2,3,4) sorted_wrt_nth_less [of "(<)" "drop p nums" "i - p" "j - p"] by simp
qed

lemma rotated_across:
  assumes "rotated_at nums p" "i < p" "p \<le> j" "j < length nums"
  shows "nums ! j < nums ! i"
proof -
  have "\<forall>x \<in> set (drop p nums). \<forall>y \<in> set (take p nums). x < y" "p \<le> length nums"
    using assms(1) by (auto simp: rotated_at_def sorted_wrt_append)
  moreover have "nums ! j \<in> set (drop p nums)"
    using assms(3,4) by (auto simp: in_set_conv_nth intro!: exI [of _ "j - p"])
  moreover have "nums ! i \<in> set (take p nums)"
    using assms(2) \<open>p \<le> length nums\<close> by (auto simp: in_set_conv_nth intro!: exI [of _ i])
  ultimately show ?thesis by blast
qed

lemma rotated_less_iff:
  assumes "rotated_at nums p" "i < j" "j < length nums"
  shows "nums ! i < nums ! j \<longleftrightarrow> j < p \<or> p \<le> i"
proof (cases "j < p \<or> p \<le> i")
  case True
  then show ?thesis
    using assms rotated_first_run [of nums p i j] rotated_second_run [of nums p i j] by auto
next
  case False
  then have "nums ! j < nums ! i"
    using assms rotated_across [of nums p i j] by auto
  with False show ?thesis by auto
qed

lemma rotated_distinct:
  assumes "rotated_at nums p" "i < length nums" "j < length nums" "nums ! i = nums ! j"
  shows "i = j"
proof (rule ccontr)
  assume "i \<noteq> j"
  then consider "i < j" | "j < i" by linarith
  then show False
  proof cases
    case 1
    then show False
      using assms rotated_less_iff [of nums p i j] rotated_across [of nums p i j] by force
  next
    case 2
    then show False
      using assms rotated_less_iff [of nums p j i] rotated_across [of nums p j i] by force
  qed
qed

text \<open>
  The four decisions of the loop. With \<open>l \<le> m \<le> r\<close> the window and its midpoint and
  \<open>i\<close> a position of the target inside the window, each test of the source puts \<open>i\<close>
  on the side the loop keeps.
\<close>

lemma window_a:
  assumes R: "rotated_at nums p" and ord: "l \<le> m" "m \<le> r" "r < length nums"
    and i: "l \<le> i" "i \<le> r" "nums ! i \<noteq> nums ! m"
    and c: "nums ! l \<le> nums ! m" "nums ! l \<le> nums ! i" "nums ! i < nums ! m"
  shows "i < m"
proof (rule ccontr)
  assume "\<not> i < m"
  with i have mi: "m < i" by (cases "i = m") auto
  with c(3) have "m < p" "p \<le> i"
    using rotated_less_iff [OF R, of m i] ord i by auto
  then have "nums ! i < nums ! l"
    using rotated_across [OF R, of l i] ord i by auto
  with c(2) show False by simp
qed

lemma window_b:
  assumes R: "rotated_at nums p" and ord: "l \<le> m" "m \<le> r" "r < length nums"
    and i: "l \<le> i" "i \<le> r" "nums ! i \<noteq> nums ! m"
    and c: "nums ! l \<le> nums ! m" "\<not> (nums ! l \<le> nums ! i \<and> nums ! i < nums ! m)"
  shows "m < i"
proof (rule ccontr)
  assume "\<not> m < i"
  with i have im: "i < m" by (cases "i = m") auto
  then have lm: "l < m" using i by simp
  have same: "m < p \<or> p \<le> l"
    using rotated_less_iff [OF R lm] c(1) ord rotated_distinct [OF R, of l m] lm by force
  have "nums ! i < nums ! m"
    using rotated_less_iff [OF R im] same ord i by auto
  moreover have "nums ! l \<le> nums ! i"
  proof (cases "l = i")
    case False
    then have "l < i" using i by simp
    then show ?thesis
      using rotated_less_iff [OF R, of l i] same im ord by force
  qed simp
  ultimately show False using c(2) by simp
qed

lemma window_c:
  assumes R: "rotated_at nums p" and ord: "l \<le> m" "m \<le> r" "r < length nums"
    and i: "l \<le> i" "i \<le> r" "nums ! i \<noteq> nums ! m"
    and c: "nums ! m < nums ! l" "nums ! m < nums ! i" "nums ! i \<le> nums ! r"
  shows "m < i"
proof (rule ccontr)
  assume "\<not> m < i"
  with i have im: "i < m" by (cases "i = m") auto
  have lm: "l < m" using c(1) ord by (cases "l = m") auto
  have split: "l < p" "p \<le> m"
    using rotated_less_iff [OF R lm] c(1) ord by auto
  have "i < p"
    using rotated_less_iff [OF R im] c(2) ord split by auto
  then have "nums ! r < nums ! i"
    using rotated_across [OF R, of i r] split ord by auto
  with c(3) show False by simp
qed

lemma window_d:
  assumes R: "rotated_at nums p" and ord: "l \<le> m" "m \<le> r" "r < length nums"
    and i: "l \<le> i" "i \<le> r" "nums ! i \<noteq> nums ! m"
    and c: "nums ! m < nums ! l" "\<not> (nums ! m < nums ! i \<and> nums ! i \<le> nums ! r)"
  shows "i < m"
proof (rule ccontr)
  assume "\<not> i < m"
  with i have mi: "m < i" by (cases "i = m") auto
  have lm: "l < m" using c(1) ord by (cases "l = m") auto
  have split: "l < p" "p \<le> m"
    using rotated_less_iff [OF R lm] c(1) ord by auto
  have "nums ! m < nums ! i"
    using rotated_second_run [OF R split(2) mi] i ord by simp
  moreover have "nums ! i \<le> nums ! r"
  proof (cases "i = r")
    case False
    then have "i < r" using i by simp
    then show ?thesis
      using rotated_second_run [OF R, of i r] split mi ord by simp
  qed simp
  ultimately show False using c(2) by simp
qed

text \<open>
  The loop invariant: every position of the target lies in \<open>[lft, rgt]\<close>. Under it the
  loop returns a position of the target, or \<open>- 1\<close> when the target does not occur.
\<close>

lemma search_loop_correct:
  "length nums < 2 ^ 31 \<Longrightarrow> rotated_at nums p \<Longrightarrow> 0 \<le> lft \<Longrightarrow> rgt < int (length nums) \<Longrightarrow>
     (\<And>i. i < length nums \<Longrightarrow> nums ! i = target \<Longrightarrow> lft \<le> int i \<and> int i \<le> rgt) \<Longrightarrow>
     (\<exists>i < length nums. nums ! i = target \<and> search_loop nums target lft rgt = Some (int i))
     \<or> (target \<notin> set nums \<and> search_loop nums target lft rgt = Some (- 1))"
proof (induction nums target lft rgt rule: search_loop.induct)
  case (1 nums target lft rgt)
  note len = "1.prems"(1)
  note R = "1.prems"(2)
  note win = "1.prems"(5)
  show ?case
  proof (cases "lft \<le> rgt")
    case False
    then have "search_loop nums target lft rgt = Some (- 1)"
      by (subst search_loop.simps) simp
    moreover have "target \<notin> set nums"
      using win False by (fastforce simp: in_set_conv_nth)
    ultimately show ?thesis by simp
  next
    case True
    define mid where "mid = lft + (rgt - lft) div 2"
    define l m r where "l = nat lft" and "m = nat mid" and "r = nat rgt"
    have mb: "lft \<le> mid" "mid \<le> rgt" using True by (auto simp: mid_def)
    have ord: "l \<le> m" "m \<le> r" "r < length nums"
      using mb "1.prems"(3,4) by (auto simp: l_def m_def r_def)
    have ints: "int l = lft" "int m = mid" "int r = rgt"
      using mb "1.prems"(3) by (auto simp: l_def m_def r_def)
    have mp: "midpoint lft rgt = Some mid"
      using midpoint_Some [of lft rgt] True "1.prems"(3,4) len by (simp add: mid_def)
    have io: "int_op (mid - 1) = Some (mid - 1)" "int_op (mid + 1) = Some (mid + 1)"
      using mb "1.prems"(3,4) len by (auto intro!: int_op_Some)
    have rd: "at_index nums mid = Some (nums ! m)" "at_index nums lft = Some (nums ! l)"
      "at_index nums rgt = Some (nums ! r)"
      using mb "1.prems"(3,4) by (auto simp: at_index_def l_def m_def r_def)
    show ?thesis
    proof (cases "nums ! m = target")
      case True
      have "search_loop nums target lft rgt = Some mid"
        using \<open>lft \<le> rgt\<close> rd True by (subst search_loop.simps) (simp add: mp)
      then show ?thesis using True ord ints by auto
    next
      case ne: False
      have inw: "l \<le> i \<and> i \<le> r \<and> nums ! i \<noteq> nums ! m" if "i < length nums" "nums ! i = target" for i
        using win [OF that] ne that ints by auto
      have go_left: ?thesis
        if step: "search_loop nums target lft rgt = search_loop nums target lft (mid - 1)"
          and ih: "0 \<le> lft \<Longrightarrow> mid - 1 < int (length nums) \<Longrightarrow>
            (\<And>i. i < length nums \<Longrightarrow> nums ! i = target \<Longrightarrow> lft \<le> int i \<and> int i \<le> mid - 1) \<Longrightarrow>
            (\<exists>i < length nums. nums ! i = target \<and> search_loop nums target lft (mid - 1) = Some (int i))
            \<or> (target \<notin> set nums \<and> search_loop nums target lft (mid - 1) = Some (- 1))"
          and loc: "\<And>i. i < length nums \<Longrightarrow> nums ! i = target \<Longrightarrow> i < m"
      proof -
        have "lft \<le> int i \<and> int i \<le> mid - 1" if "i < length nums" "nums ! i = target" for i
          using loc [OF that] win [OF that] ints by auto
        then show ?thesis
          using ih "1.prems"(3,4) mb step by auto
      qed
      have go_right: ?thesis
        if step: "search_loop nums target lft rgt = search_loop nums target (mid + 1) rgt"
          and ih: "0 \<le> mid + 1 \<Longrightarrow> rgt < int (length nums) \<Longrightarrow>
            (\<And>i. i < length nums \<Longrightarrow> nums ! i = target \<Longrightarrow> mid + 1 \<le> int i \<and> int i \<le> rgt) \<Longrightarrow>
            (\<exists>i < length nums. nums ! i = target \<and> search_loop nums target (mid + 1) rgt = Some (int i))
            \<or> (target \<notin> set nums \<and> search_loop nums target (mid + 1) rgt = Some (- 1))"
          and loc: "\<And>i. i < length nums \<Longrightarrow> nums ! i = target \<Longrightarrow> m < i"
      proof -
        have "mid + 1 \<le> int i \<and> int i \<le> rgt" if "i < length nums" "nums ! i = target" for i
          using loc [OF that] win [OF that] ints by auto
        then show ?thesis
          using ih "1.prems"(3,4) mb step by auto
      qed
      show ?thesis
      proof (cases "nums ! l \<le> nums ! m")
        case lm: True
        show ?thesis
        proof (cases "target \<ge> nums ! l \<and> target < nums ! m")
          case c: True
          show ?thesis
          proof (rule go_left)
            show "search_loop nums target lft rgt = search_loop nums target lft (mid - 1)"
              using \<open>lft \<le> rgt\<close> rd ne lm c
              by (subst search_loop.simps) (auto simp add: mp io)
            show "i < m" if "i < length nums" "nums ! i = target" for i
              using window_a [OF R ord, of i] inw [OF that] lm c that by simp
          qed (rule "1.IH"(1) [OF \<open>lft \<le> rgt\<close> mp rd(1) ne rd(2) lm c io(1), OF len R])
        next
          case c: False
          show ?thesis
          proof (rule go_right)
            show "search_loop nums target lft rgt = search_loop nums target (mid + 1) rgt"
              using \<open>lft \<le> rgt\<close> rd ne lm c
              by (subst search_loop.simps) (auto simp add: mp io)
            show "m < i" if "i < length nums" "nums ! i = target" for i
              using window_b [OF R ord, of i] inw [OF that] lm c that by simp
          qed (rule "1.IH"(2) [OF \<open>lft \<le> rgt\<close> mp rd(1) ne rd(2) lm c io(2), OF len R])
        qed
      next
        case lm: False
        show ?thesis
        proof (cases "target > nums ! m")
          case gt: True
          show ?thesis
          proof (cases "target \<le> nums ! r")
            case c: True
            show ?thesis
            proof (rule go_right)
              show "search_loop nums target lft rgt = search_loop nums target (mid + 1) rgt"
                using \<open>lft \<le> rgt\<close> rd ne lm gt c
                by (subst search_loop.simps) (auto simp add: mp io)
              show "m < i" if "i < length nums" "nums ! i = target" for i
                using window_c [OF R ord, of i] inw [OF that] lm gt c that by simp
            qed (rule "1.IH"(3) [OF \<open>lft \<le> rgt\<close> mp rd(1) ne rd(2) lm gt rd(3) c io(2), OF len R])
          next
            case c: False
            show ?thesis
            proof (rule go_left)
              show "search_loop nums target lft rgt = search_loop nums target lft (mid - 1)"
                using \<open>lft \<le> rgt\<close> rd ne lm gt c
                by (subst search_loop.simps) (auto simp add: mp io)
              show "i < m" if "i < length nums" "nums ! i = target" for i
                using window_d [OF R ord, of i] inw [OF that] lm gt c that by simp
            qed (rule "1.IH"(4) [OF \<open>lft \<le> rgt\<close> mp rd(1) ne rd(2) lm gt rd(3) c io(1), OF len R])
          qed
        next
          case gt: False
          show ?thesis
          proof (rule go_left)
            show "search_loop nums target lft rgt = search_loop nums target lft (mid - 1)"
              using \<open>lft \<le> rgt\<close> rd ne lm gt
              by (subst search_loop.simps) (auto simp add: mp io)
            show "i < m" if "i < length nums" "nums ! i = target" for i
              using window_d [OF R ord, of i] inw [OF that] lm gt that by simp
          qed (rule "1.IH"(5) [OF \<open>lft \<le> rgt\<close> mp rd(1) ne rd(2) lm gt io(1), OF len R])
        qed
      qed
    qed
  qed
qed

lemma rotate_rotated_at:
  assumes "sorted_wrt (<) xs"
  shows "rotated_at (rotate k xs) (length xs - k mod length xs)"
proof (cases "xs = []")
  case True
  then show ?thesis by (simp add: rotated_at_def)
next
  case False
  define m where "m = k mod length xs"
  have m: "m \<le> length xs" using False by (simp add: m_def less_imp_le)
  have rot: "rotate k xs = drop m xs @ take m xs"
    by (simp add: rotate_drop_take m_def)
  have "drop (length xs - m) (rotate k xs) @ take (length xs - m) (rotate k xs) = xs"
    using m by (simp add: rot)
  with assms show ?thesis
    unfolding rotated_at_def m_def [symmetric] by simp
qed

lemma search_rotated_at:
  assumes R: "rotated_at nums p" and len: "length nums < 2 ^ 31"
  shows "(\<exists>i < length nums. nums ! i = target \<and> search nums target = Some (int i))
     \<or> (target \<notin> set nums \<and> search nums target = Some (- 1))"
proof -
  have "to_int32 (int (length nums) - 1) = int (length nums) - 1"
    using len by (intro to_int32_id) auto
  then show ?thesis
    unfolding search_def
    using search_loop_correct [OF len R, of 0 "int (length nums) - 1" target] by auto
qed



text \<open>
  Claim C1, amended. For every strictly ascending array \<open>xs\<close> of fewer than \<open>2 ^ 31\<close>
  elements rotated by any amount \<open>k\<close>, and every target value, \<open>search\<close> returns an index
  \<open>i\<close> with \<open>arr[i] == target\<close> when the target is present, and \<open>- 1\<close> when it is absent.
\<close>

theorem search_finds_target_in_rotated_array:
  assumes "sorted_wrt (<) xs" and "length xs < 2 ^ 31"
  shows "(target \<in> set xs \<longrightarrow>
            (\<exists>i < length xs. rotate k xs ! i = target \<and> search (rotate k xs) target = Some (int i)))
       \<and> (target \<notin> set xs \<longrightarrow> search (rotate k xs) target = Some (- 1))"
proof -
  have R: "rotated_at (rotate k xs) (length xs - k mod length xs)"
    using assms(1) by (rule rotate_rotated_at)
  have len: "length (rotate k xs) < 2 ^ 31"
    using assms(2) by simp
  from search_rotated_at [OF R len, of target] show ?thesis
  proof
    assume "\<exists>i < length (rotate k xs).
              rotate k xs ! i = target \<and> search (rotate k xs) target = Some (int i)"
    then obtain i where i: "i < length (rotate k xs)" "rotate k xs ! i = target"
      "search (rotate k xs) target = Some (int i)" by blast
    then have "target \<in> set (rotate k xs)"
      using nth_mem [of i "rotate k xs"] by simp
    with i show ?thesis by auto
  next
    assume "target \<notin> set (rotate k xs) \<and> search (rotate k xs) target = Some (- 1)"
    then show ?thesis by simp
  qed
qed

theorem search_finds_target_in_rotated_array_witness:
  "sorted_wrt (<) [0, 1, 2, 4, 5, 6, 7 :: int]
   \<and> length [0, 1, 2, 4, 5, 6, 7 :: int] < 2 ^ 31
   \<and> (\<exists>i < length [0, 1, 2, 4, 5, 6, 7 :: int]. [4, 5, 6, 7, 0, 1, 2 :: int] ! i = 0 \<and> search [4, 5, 6, 7, 0, 1, 2] 0 = Some (int i))
   \<and> search [4, 5, 6, 7, 0, 1, 2] 3 = Some (- 1)"
proof -
  have s: "sorted_wrt (<) [0, 1, 2, 4, 5, 6, 7 :: int]" by simp
  have l: "length [0, 1, 2, 4, 5, 6, 7 :: int] < 2 ^ 31" by simp
  have r: "rotate 3 [0, 1, 2, 4, 5, 6, 7 :: int] = [4, 5, 6, 7, 0, 1, 2]"
    by (simp add: rotate_drop_take)
  show ?thesis
    using search_finds_target_in_rotated_array [OF s l, of 0 3]
      search_finds_target_in_rotated_array [OF s l, of 3 3] s l
    unfolding r by simp
qed

text \<open>
  Claim C1 as stated, for every ascending array, fails beyond the range of the \<open>int\<close>
  index: in the ascending array of the \<open>2 ^ 31 + 1\<close> integers from \<open>- 5\<close> on (rotated by
  \<open>0\<close>) the target \<open>0\<close> is present at index \<open>5\<close>, and \<open>search\<close> returns \<open>- 1\<close>.
\<close>

theorem search_misses_target_beyond_int_range:
  "sorted_wrt (<) (ascending_from (- 5) 2147483649)
   \<and> ascending_from (- 5) 2147483649 ! 5 = 0
   \<and> search (rotate 0 (ascending_from (- 5) 2147483649)) 0 = Some (- 1)"
proof -
  have "length (rotate 0 (ascending_from (- 5) 2147483649)) = 2147483649"
    by (simp add: length_ascending_from)
  then have "search (rotate 0 (ascending_from (- 5) 2147483649)) 0 = Some (- 1)"
    by (rule huge_search_miss)
  moreover have "ascending_from (- 5) 2147483649 ! 5 = 0"
    by (simp add: nth_ascending_from)
  ultimately show ?thesis
    using sorted_ascending_from [of "- 5" 2147483649] by simp
qed

section \<open>Mountain search\<close>

text \<open>
  \<open>std::lower_bound\<close> on a range inside the vector that \<open>cmp\<close> partitions: the loop
  reads only inside the range and returns the partition point. Without the partition it
  still reads only inside the range.
\<close>

lemma std_lower_bound_loop_spec:
  assumes "0 \<le> first" "0 \<le> len" "first + len \<le> int (length arr)"
    and "\<And>i j. first \<le> i \<Longrightarrow> i \<le> j \<Longrightarrow> j < first + len \<Longrightarrow> cmp (arr ! nat j) v \<Longrightarrow> cmp (arr ! nat i) v"
  shows "\<exists>it. std_lower_bound_loop cmp arr v first len = Some it \<and> first \<le> it \<and> it \<le> first + len
           \<and> (\<forall>i. first \<le> i \<and> i < it \<longrightarrow> cmp (arr ! nat i) v)
           \<and> (\<forall>i. it \<le> i \<and> i < first + len \<longrightarrow> \<not> cmp (arr ! nat i) v)"
  using assms
proof (induction cmp arr v first len rule: std_lower_bound_loop.induct)
  case (1 cmp arr v first len)
  show ?case
  proof (cases "0 < len")
    case False
    then have "std_lower_bound_loop cmp arr v first len = Some first"
      by (subst std_lower_bound_loop.simps) simp
    with False "1.prems"(2) show ?thesis by auto
  next
    case True
    define half where "half = len div 2"
    define middle where "middle = first + half"
    have h: "0 \<le> half" "half < len" using True by (auto simp: half_def)
    have mid: "0 \<le> middle" "middle < int (length arr)" "first \<le> middle" "middle < first + len"
      using "1.prems"(1,3) h by (auto simp: middle_def)
    have rd: "at_index arr middle = Some (arr ! nat middle)"
      using mid by (simp add: at_index_Some)
    show ?thesis
    proof (cases "cmp (arr ! nat middle) v")
      case c: True
      have step: "std_lower_bound_loop cmp arr v first len
                    = std_lower_bound_loop cmp arr v (middle + 1) (len - half - 1)"
        using True c rd by (subst std_lower_bound_loop.simps) (simp add: Let_def half_def middle_def)
      have "\<exists>it. std_lower_bound_loop cmp arr v (middle + 1) (len - half - 1) = Some it
                \<and> middle + 1 \<le> it \<and> it \<le> middle + 1 + (len - half - 1)
                \<and> (\<forall>i. middle + 1 \<le> i \<and> i < it \<longrightarrow> cmp (arr ! nat i) v)
                \<and> (\<forall>i. it \<le> i \<and> i < middle + 1 + (len - half - 1) \<longrightarrow> \<not> cmp (arr ! nat i) v)"
      proof (rule "1.IH"(1) [OF True half_def middle_def rd c])
        show "0 \<le> middle + 1" using mid by simp
        show "0 \<le> len - half - 1" using h by simp
        show "middle + 1 + (len - half - 1) \<le> int (length arr)"
          using "1.prems"(3) by (simp add: middle_def)
        show "cmp (arr ! nat i) v"
          if "middle + 1 \<le> i" "i \<le> j" "j < middle + 1 + (len - half - 1)" "cmp (arr ! nat j) v" for i j
          using that mid "1.prems"(4) [of i j] by (simp add: middle_def)
      qed
      then obtain it where it: "std_lower_bound_loop cmp arr v (middle + 1) (len - half - 1) = Some it"
        "middle + 1 \<le> it" "it \<le> first + len"
        "\<forall>i. middle + 1 \<le> i \<and> i < it \<longrightarrow> cmp (arr ! nat i) v"
        "\<forall>i. it \<le> i \<and> i < first + len \<longrightarrow> \<not> cmp (arr ! nat i) v"
        by (auto simp: middle_def)
      have "cmp (arr ! nat i) v" if "first \<le> i" "i < it" for i
      proof (cases "i \<le> middle")
        case True
        then show ?thesis using "1.prems"(4) [of i middle] that c mid by simp
      next
        case False
        then show ?thesis using it(4) that by simp
      qed
      with it step mid show ?thesis by auto
    next
      case c: False
      have step: "std_lower_bound_loop cmp arr v first len = std_lower_bound_loop cmp arr v first half"
        using True c rd by (subst std_lower_bound_loop.simps) (simp add: Let_def half_def middle_def)
      have "\<exists>it. std_lower_bound_loop cmp arr v first half = Some it
                \<and> first \<le> it \<and> it \<le> first + half
                \<and> (\<forall>i. first \<le> i \<and> i < it \<longrightarrow> cmp (arr ! nat i) v)
                \<and> (\<forall>i. it \<le> i \<and> i < first + half \<longrightarrow> \<not> cmp (arr ! nat i) v)"
      proof (rule "1.IH"(2) [OF True half_def middle_def rd c])
        show "0 \<le> first" by fact
        show "0 \<le> half" by fact
        show "first + half \<le> int (length arr)" using mid by (simp add: middle_def)
        show "cmp (arr ! nat i) v"
          if "first \<le> i" "i \<le> j" "j < first + half" "cmp (arr ! nat j) v" for i j
          using that h "1.prems"(4) [of i j] by simp
      qed
      then obtain it where it: "std_lower_bound_loop cmp arr v first half = Some it"
        "first \<le> it" "it \<le> middle"
        "\<forall>i. first \<le> i \<and> i < it \<longrightarrow> cmp (arr ! nat i) v"
        "\<forall>i. it \<le> i \<and> i < middle \<longrightarrow> \<not> cmp (arr ! nat i) v"
        by (auto simp: middle_def)
      have "\<not> cmp (arr ! nat i) v" if "it \<le> i" "i < first + len" for i
      proof (cases "i < middle")
        case True
        then show ?thesis using it(5) that by simp
      next
        case False
        then show ?thesis using "1.prems"(4) [of middle i] that c mid by auto
      qed
      with it step mid show ?thesis by auto
    qed
  qed
qed

lemma std_lower_bound_loop_safe:
  assumes "0 \<le> first" "0 \<le> len" "first + len \<le> int (length arr)"
  shows "\<exists>it. std_lower_bound_loop cmp arr v first len = Some it \<and> first \<le> it \<and> it \<le> first + len"
  using assms
proof (induction cmp arr v first len rule: std_lower_bound_loop.induct)
  case (1 cmp arr v first len)
  show ?case
  proof (cases "0 < len")
    case False
    then have "std_lower_bound_loop cmp arr v first len = Some first"
      by (subst std_lower_bound_loop.simps) simp
    with False "1.prems"(2) show ?thesis by auto
  next
    case True
    define half where "half = len div 2"
    define middle where "middle = first + half"
    have h: "0 \<le> half" "half < len" using True by (auto simp: half_def)
    have mid: "0 \<le> middle" "middle < int (length arr)" "first \<le> middle" "middle < first + len"
      using "1.prems"(1,3) h by (auto simp: middle_def)
    have rd: "at_index arr middle = Some (arr ! nat middle)"
      using mid by (simp add: at_index_Some)
    show ?thesis
    proof (cases "cmp (arr ! nat middle) v")
      case c: True
      have step: "std_lower_bound_loop cmp arr v first len
                    = std_lower_bound_loop cmp arr v (middle + 1) (len - half - 1)"
        using True c rd by (subst std_lower_bound_loop.simps) (simp add: Let_def half_def middle_def)
      have "\<exists>it. std_lower_bound_loop cmp arr v (middle + 1) (len - half - 1) = Some it
                \<and> middle + 1 \<le> it \<and> it \<le> middle + 1 + (len - half - 1)"
      proof (rule "1.IH"(1) [OF True half_def middle_def rd c])
        show "0 \<le> middle + 1" using mid by simp
        show "0 \<le> len - half - 1" using h by simp
        show "middle + 1 + (len - half - 1) \<le> int (length arr)"
          using "1.prems"(3) by (simp add: middle_def)
      qed
      with step mid show ?thesis by (auto simp: middle_def)
    next
      case c: False
      have step: "std_lower_bound_loop cmp arr v first len = std_lower_bound_loop cmp arr v first half"
        using True c rd by (subst std_lower_bound_loop.simps) (simp add: Let_def half_def middle_def)
      have "\<exists>it. std_lower_bound_loop cmp arr v first half = Some it
                \<and> first \<le> it \<and> it \<le> first + half"
      proof (rule "1.IH"(2) [OF True half_def middle_def rd c])
        show "0 \<le> first" by fact
        show "0 \<le> half" by fact
        show "first + half \<le> int (length arr)" using mid by (simp add: middle_def)
      qed
      with step mid show ?thesis by (auto simp: middle_def)
    qed
  qed
qed

text \<open>\<open>mountain_at arr p\<close> by indices, and the peak that \<open>findPeakIndex\<close> returns.\<close>

lemma mountain_asc:
  assumes "mountain_at arr p" "i < j" "j \<le> p"
  shows "arr ! i < arr ! j"
proof -
  have "sorted_wrt (<) (take (Suc p) arr)" "p < length arr"
    using assms(1) by (auto simp: mountain_at_def)
  then have "take (Suc p) arr ! i < take (Suc p) arr ! j"
    using assms(2,3) sorted_wrt_nth_less [of "(<)" "take (Suc p) arr" i j] by simp
  then show ?thesis using assms(2,3) by simp
qed

lemma mountain_desc:
  assumes "mountain_at arr p" "p \<le> i" "i < j" "j < length arr"
  shows "arr ! j < arr ! i"
proof -
  have "sorted_wrt (>) (drop p arr)" "p < length arr"
    using assms(1) by (auto simp: mountain_at_def)
  then have "drop p arr ! (i - p) > drop p arr ! (j - p)"
    using assms(2,3,4) sorted_wrt_nth_less [of "(>)" "drop p arr" "i - p" "j - p"] by simp
  then show ?thesis using assms(2,3,4) by simp
qed

lemma findPeakIndex_loop_safe:
  "length arr < 2 ^ 31 \<Longrightarrow> 0 \<le> lft \<Longrightarrow> lft \<le> rgt \<Longrightarrow> rgt < int (length arr) \<Longrightarrow>
   \<exists>p. findPeakIndex_loop arr lft rgt = Some p \<and> lft \<le> p \<and> p \<le> rgt"
proof (induction arr lft rgt rule: findPeakIndex_loop.induct)
  case (1 arr lft rgt)
  note len = "1.prems"(1)
  show ?case
  proof (cases "lft < rgt")
    case False
    then have "findPeakIndex_loop arr lft rgt = Some lft"
      by (subst findPeakIndex_loop.simps) simp
    with "1.prems" show ?thesis by simp
  next
    case True
    define mid where "mid = lft + (rgt - lft) div 2"
    have m: "lft \<le> mid" "mid < rgt" using True by (auto simp: mid_def)
    have mp: "midpoint lft rgt = Some mid"
      using midpoint_Some [of lft rgt] True "1.prems" by (simp add: mid_def)
    have io: "int_op (mid + 1) = Some (mid + 1)"
      using m "1.prems" by (intro int_op_Some) auto
    have rd: "at_index arr mid = Some (arr ! nat mid)"
      and rd': "at_index arr (mid + 1) = Some (arr ! nat (mid + 1))"
      using m "1.prems" by (auto simp: at_index_Some)
    show ?thesis
    proof (cases "arr ! nat mid < arr ! nat (mid + 1)")
      case c: True
      have "findPeakIndex_loop arr lft rgt = findPeakIndex_loop arr (mid + 1) rgt"
        using True c rd rd' by (subst findPeakIndex_loop.simps) (simp add: mp io)
      moreover have "\<exists>p. findPeakIndex_loop arr (mid + 1) rgt = Some p \<and> mid + 1 \<le> p \<and> p \<le> rgt"
        using "1.IH"(1) [OF True mp rd io rd' c len] m "1.prems" by simp
      ultimately show ?thesis using m by auto
    next
      case c: False
      have "findPeakIndex_loop arr lft rgt = findPeakIndex_loop arr lft mid"
        using True c rd rd' by (subst findPeakIndex_loop.simps) (simp add: mp io)
      moreover have "\<exists>p. findPeakIndex_loop arr lft mid = Some p \<and> lft \<le> p \<and> p \<le> mid"
        using "1.IH"(2) [OF True mp rd io rd' c len] m "1.prems" by simp
      ultimately show ?thesis using m by auto
    qed
  qed
qed

lemma findPeakIndex_loop_peak:
  "length arr < 2 ^ 31 \<Longrightarrow> mountain_at arr p \<Longrightarrow> 0 \<le> lft \<Longrightarrow> lft \<le> int p \<Longrightarrow> int p \<le> rgt \<Longrightarrow>
   rgt < int (length arr) \<Longrightarrow> findPeakIndex_loop arr lft rgt = Some (int p)"
proof (induction arr lft rgt rule: findPeakIndex_loop.induct)
  case (1 arr lft rgt)
  note len = "1.prems"(1)
  note M = "1.prems"(2)
  show ?case
  proof (cases "lft < rgt")
    case False
    then have "findPeakIndex_loop arr lft rgt = Some lft"
      by (subst findPeakIndex_loop.simps) simp
    with False "1.prems" show ?thesis by simp
  next
    case True
    define mid where "mid = lft + (rgt - lft) div 2"
    have m: "lft \<le> mid" "mid < rgt" using True by (auto simp: mid_def)
    have mp: "midpoint lft rgt = Some mid"
      using midpoint_Some [of lft rgt] True "1.prems" by (simp add: mid_def)
    have io: "int_op (mid + 1) = Some (mid + 1)"
      using m "1.prems" by (intro int_op_Some) auto
    have rd: "at_index arr mid = Some (arr ! nat mid)"
      and rd': "at_index arr (mid + 1) = Some (arr ! nat (mid + 1))"
      using m "1.prems" by (auto simp: at_index_Some)
    have suc: "nat (mid + 1) = Suc (nat mid)" using m "1.prems" by simp
    show ?thesis
    proof (cases "arr ! nat mid < arr ! nat (mid + 1)")
      case c: True
      have "mid < int p"
      proof (rule ccontr)
        assume "\<not> mid < int p"
        then have "arr ! Suc (nat mid) < arr ! nat mid"
          using "1.prems" m by (intro mountain_desc [of arr p]) auto
        with c suc show False by simp
      qed
      moreover have "findPeakIndex_loop arr lft rgt = findPeakIndex_loop arr (mid + 1) rgt"
        using True c rd rd' by (subst findPeakIndex_loop.simps) (simp add: mp io)
      ultimately show ?thesis
        using "1.IH"(1) [OF True mp rd io rd' c len M] m "1.prems" by simp
    next
      case c: False
      have "int p \<le> mid"
      proof (rule ccontr)
        assume "\<not> int p \<le> mid"
        then have "arr ! nat mid < arr ! Suc (nat mid)"
          using "1.prems" m by (intro mountain_asc [of arr p]) auto
        with c suc show False by simp
      qed
      moreover have "findPeakIndex_loop arr lft rgt = findPeakIndex_loop arr lft mid"
        using True c rd rd' by (subst findPeakIndex_loop.simps) (simp add: mp io)
      ultimately show ?thesis
        using "1.IH"(2) [OF True mp rd io rd' c len M] m "1.prems" by simp
    qed
  qed
qed

lemma findPeakIndex_mountain:
  "mountain_at arr p \<Longrightarrow> length arr < 2 ^ 31 \<Longrightarrow> findPeakIndex arr = Some (int p)"
  unfolding findPeakIndex_def
  by (simp add: size_minus_one findPeakIndex_loop_peak mountain_at_def)

lemma findPeakIndex_safe:
  "arr \<noteq> [] \<Longrightarrow> length arr < 2 ^ 31 \<Longrightarrow>
   \<exists>p. findPeakIndex arr = Some p \<and> 0 \<le> p \<and> p < int (length arr)"
  using findPeakIndex_loop_safe [of arr 0 "int (length arr) - 1"]
  unfolding findPeakIndex_def by (fastforce simp add: size_minus_one)

text \<open>
  The two half searches: on a strictly ordered range the position found is the position of
  the target, if it occurs there.
\<close>

lemma std_lower_bound_safe:
  assumes "0 \<le> l" "l \<le> r + 1" "r + 1 \<le> int (length arr)"
  shows "\<exists>it. std_lower_bound arr l (r + 1) target cmp = Some it \<and> l \<le> it \<and> it \<le> r + 1"
  using std_lower_bound_loop_safe [of l "r + 1 - l" arr cmp target] assms
  by (simp add: std_lower_bound_def)

lemma std_lower_bound_unique:
  assumes range: "0 \<le> l" "l \<le> r + 1" "r + 1 \<le> int (length arr)"
    and strict: "\<And>i j. l \<le> i \<Longrightarrow> i < j \<Longrightarrow> j \<le> r \<Longrightarrow> cmp (arr ! nat i) (arr ! nat j)"
    and irrefl: "\<And>x. \<not> cmp x x"
    and trans: "\<And>x y z. cmp x y \<Longrightarrow> cmp y z \<Longrightarrow> cmp x z"
    and hit: "l \<le> i" "i \<le> r" "arr ! nat i = target"
  shows "std_lower_bound arr l (r + 1) target cmp = Some i"
proof -
  have part: "cmp (arr ! nat a) target"
    if "l \<le> a" "a \<le> b" "b < l + (r + 1 - l)" "cmp (arr ! nat b) target" for a b
  proof (cases "a = b")
    case True
    with that show ?thesis by simp
  next
    case False
    with that have "cmp (arr ! nat a) (arr ! nat b)" by (intro strict) auto
    then show ?thesis using that(4) by (rule trans)
  qed
  have "\<exists>it. std_lower_bound_loop cmp arr target l (r + 1 - l) = Some it \<and> l \<le> it
           \<and> it \<le> l + (r + 1 - l)
           \<and> (\<forall>a. l \<le> a \<and> a < it \<longrightarrow> cmp (arr ! nat a) target)
           \<and> (\<forall>a. it \<le> a \<and> a < l + (r + 1 - l) \<longrightarrow> \<not> cmp (arr ! nat a) target)"
  proof (rule std_lower_bound_loop_spec)
    show "0 \<le> l" "0 \<le> r + 1 - l" "l + (r + 1 - l) \<le> int (length arr)"
      using range by simp_all
  qed (rule part)
  then obtain it where it: "std_lower_bound_loop cmp arr target l (r + 1 - l) = Some it"
    "l \<le> it" "it \<le> l + (r + 1 - l)"
    "\<forall>a. l \<le> a \<and> a < it \<longrightarrow> cmp (arr ! nat a) target"
    "\<forall>a. it \<le> a \<and> a < l + (r + 1 - l) \<longrightarrow> \<not> cmp (arr ! nat a) target"
    by (elim exE conjE)
  have "it \<le> i"
  proof (rule ccontr)
    assume "\<not> it \<le> i"
    with it(4) hit have "cmp target target" by auto
    with irrefl show False by simp
  qed
  moreover have "\<not> it < i"
  proof
    assume "it < i"
    then have "cmp (arr ! nat it) (arr ! nat i)"
      using it(2) hit by (intro strict) auto
    moreover have "\<not> cmp (arr ! nat it) target"
      using it(5) \<open>it < i\<close> hit by auto
    ultimately show False using hit by simp
  qed
  ultimately have "it = i" by simp
  with it(1) range show ?thesis by (simp add: std_lower_bound_def)
qed

lemma binarySearchAscending_safe:
  assumes "0 \<le> l" "l \<le> r + 1" "r + 1 \<le> int (length arr)"
  shows "\<exists>x. binarySearchAscending arr target l r = Some x"
proof -
  obtain it where it: "std_lower_bound arr l (r + 1) target (<) = Some it" "l \<le> it" "it \<le> r + 1"
    using std_lower_bound_safe [OF assms] by blast
  show ?thesis
  proof (cases "it = r + 1")
    case True
    with it show ?thesis by (simp add: binarySearchAscending_def)
  next
    case False
    with it assms have "at_index arr it = Some (arr ! nat it)"
      by (intro at_index_Some) auto
    with it False show ?thesis by (simp add: binarySearchAscending_def)
  qed
qed

lemma binarySearchDescending_safe:
  assumes "0 \<le> l" "l \<le> r + 1" "r + 1 \<le> int (length arr)"
  shows "\<exists>x. binarySearchDescending arr target l r = Some x"
proof -
  obtain it where it: "std_lower_bound arr l (r + 1) target (>) = Some it" "l \<le> it" "it \<le> r + 1"
    using std_lower_bound_safe [OF assms] by blast
  show ?thesis
  proof (cases "it = r + 1")
    case True
    with it show ?thesis by (simp add: binarySearchDescending_def)
  next
    case False
    with it assms have "at_index arr it = Some (arr ! nat it)"
      by (intro at_index_Some) auto
    with it False show ?thesis by (simp add: binarySearchDescending_def)
  qed
qed

lemma binarySearchAscending_found:
  assumes "0 \<le> l" "l \<le> r + 1" "r + 1 \<le> int (length arr)" "length arr < 2 ^ 31"
    and "\<And>i j. l \<le> i \<Longrightarrow> i < j \<Longrightarrow> j \<le> r \<Longrightarrow> arr ! nat i < arr ! nat j"
    and "l \<le> i" "i \<le> r" "arr ! nat i = target"
  shows "binarySearchAscending arr target l r = Some i"
proof -
  have "std_lower_bound arr l (r + 1) target (<) = Some i"
    using assms by (intro std_lower_bound_unique) auto
  moreover have "at_index arr i = Some target"
    using assms by (simp add: at_index_def)
  moreover have "to_int32 i = i"
    using assms by (intro to_int32_id) auto
  ultimately show ?thesis
    using assms by (simp add: binarySearchAscending_def)
qed

lemma binarySearchDescending_found:
  assumes "0 \<le> l" "l \<le> r + 1" "r + 1 \<le> int (length arr)" "length arr < 2 ^ 31"
    and "\<And>i j. l \<le> i \<Longrightarrow> i < j \<Longrightarrow> j \<le> r \<Longrightarrow> arr ! nat i > arr ! nat j"
    and "l \<le> i" "i \<le> r" "arr ! nat i = target"
  shows "binarySearchDescending arr target l r = Some i"
proof -
  have "std_lower_bound arr l (r + 1) target (>) = Some i"
    using assms by (intro std_lower_bound_unique) auto
  moreover have "at_index arr i = Some target"
    using assms by (simp add: at_index_def)
  moreover have "to_int32 i = i"
    using assms by (intro to_int32_id) auto
  ultimately show ?thesis
    using assms by (simp add: binarySearchDescending_def)
qed

lemma binarySearchAscending_absent:
  assumes "0 \<le> l" "l \<le> r + 1" "r + 1 \<le> int (length arr)"
    and "\<And>i. l \<le> i \<Longrightarrow> i \<le> r \<Longrightarrow> arr ! nat i \<noteq> target"
  shows "binarySearchAscending arr target l r = Some (- 1)"
proof -
  obtain it where it: "std_lower_bound arr l (r + 1) target (<) = Some it" "l \<le> it" "it \<le> r + 1"
    using std_lower_bound_safe [OF assms(1-3)] by blast
  show ?thesis
  proof (cases "it = r + 1")
    case True
    with it show ?thesis by (simp add: binarySearchAscending_def)
  next
    case False
    with it assms have "at_index arr it = Some (arr ! nat it)" "arr ! nat it \<noteq> target"
      by (auto simp: at_index_def)
    with it False show ?thesis by (simp add: binarySearchAscending_def)
  qed
qed

lemma binarySearchDescending_absent:
  assumes "0 \<le> l" "l \<le> r + 1" "r + 1 \<le> int (length arr)"
    and "\<And>i. l \<le> i \<Longrightarrow> i \<le> r \<Longrightarrow> arr ! nat i \<noteq> target"
  shows "binarySearchDescending arr target l r = Some (- 1)"
proof -
  obtain it where it: "std_lower_bound arr l (r + 1) target (>) = Some it" "l \<le> it" "it \<le> r + 1"
    using std_lower_bound_safe [OF assms(1-3)] by blast
  show ?thesis
  proof (cases "it = r + 1")
    case True
    with it show ?thesis by (simp add: binarySearchDescending_def)
  next
    case False
    with it assms have "at_index arr it = Some (arr ! nat it)" "arr ! nat it \<noteq> target"
      by (auto simp: at_index_def)
    with it False show ?thesis by (simp add: binarySearchDescending_def)
  qed
qed

text \<open>The three outcomes of \<open>findTargetInMountainArray\<close> on a mountain, and its reads.\<close>

lemma mountain_ascending_search:
  assumes m: "mountain_at arr p" and len: "length arr < 2 ^ 31"
    and hit: "i \<le> p" "arr ! i = target"
  shows "binarySearchAscending arr target 0 (int p) = Some (int i)"
proof -
  have ne: "arr \<noteq> []" "p < length arr" using m by (auto simp: mountain_at_def)
  show ?thesis
  proof (rule binarySearchAscending_found)
    show "arr ! nat a < arr ! nat b" if "0 \<le> a" "a < b" "b \<le> int p" for a b
      using that by (intro mountain_asc [OF m]) auto
  qed (use ne len hit in auto)
qed

lemma mountain_ascending_side:
  assumes m: "mountain_at arr p" and len: "length arr < 2 ^ 31"
    and hit: "i \<le> p" "arr ! i = target"
  shows "findTargetInMountainArray arr target = Some (int i)"
proof -
  have ne: "arr \<noteq> []" using m by (auto simp: mountain_at_def)
  have pk: "findPeakIndex arr = Some (int p)"
    using m len by (rule findPeakIndex_mountain)
  have "binarySearchAscending arr target 0 (int p) = Some (int i)"
    using m len hit by (rule mountain_ascending_search)
  with ne pk show ?thesis
    by (simp add: findTargetInMountainArray_def)
qed

lemma mountain_descending_side:
  assumes m: "mountain_at arr p" and len: "length arr < 2 ^ 31"
    and miss: "\<And>i. i \<le> p \<Longrightarrow> arr ! i \<noteq> target"
    and hit: "p < j" "j < length arr" "arr ! j = target"
  shows "findTargetInMountainArray arr target = Some (int j)"
proof -
  have ne: "arr \<noteq> []" "p < length arr" using m by (auto simp: mountain_at_def)
  have pk: "findPeakIndex arr = Some (int p)"
    using m len by (rule findPeakIndex_mountain)
  have asc: "binarySearchAscending arr target 0 (int p) = Some (- 1)"
  proof (rule binarySearchAscending_absent)
    show "arr ! nat a \<noteq> target" if "0 \<le> a" "a \<le> int p" for a
      using that by (intro miss) auto
  qed (use ne in auto)
  have "binarySearchDescending arr target (int p + 1) (int (length arr) - 1) = Some (int j)"
  proof (rule binarySearchDescending_found)
    show "arr ! nat b < arr ! nat a" if "int p + 1 \<le> a" "a < b" "b \<le> int (length arr) - 1" for a b
      using that by (intro mountain_desc [OF m]) auto
  qed (use ne len hit in auto)
  moreover have "int_op (int p + 1) = Some (int p + 1)"
    using ne len by (intro int_op_Some) auto
  ultimately show ?thesis
    using ne pk asc len by (simp add: findTargetInMountainArray_def size_minus_one)
qed

lemma mountain_absent:
  assumes m: "mountain_at arr p" and len: "length arr < 2 ^ 31"
    and miss: "target \<notin> set arr"
  shows "findTargetInMountainArray arr target = Some (- 1)"
proof -
  have ne: "arr \<noteq> []" "p < length arr" using m by (auto simp: mountain_at_def)
  have pk: "findPeakIndex arr = Some (int p)"
    using m len by (rule findPeakIndex_mountain)
  have no: "arr ! nat a \<noteq> target" if "0 \<le> a" "a < int (length arr)" for a
    using that miss nth_mem [of "nat a" arr] by auto
  have asc: "binarySearchAscending arr target 0 (int p) = Some (- 1)"
    by (rule binarySearchAscending_absent) (use ne no in auto)
  have "binarySearchDescending arr target (int p + 1) (int (length arr) - 1) = Some (- 1)"
    by (rule binarySearchDescending_absent) (use ne no in auto)
  moreover have "int_op (int p + 1) = Some (int p + 1)"
    using ne len by (intro int_op_Some) auto
  ultimately show ?thesis
    using ne pk asc len by (simp add: findTargetInMountainArray_def size_minus_one)
qed

lemma mountain_no_fault:
  assumes ne: "arr \<noteq> []" and len: "length arr < 2 ^ 31"
  shows "\<exists>r. findTargetInMountainArray arr target = Some r"
proof -
  obtain p where pk: "findPeakIndex arr = Some p" "0 \<le> p" "p < int (length arr)"
    using findPeakIndex_safe [OF ne len] by blast
  obtain x where asc: "binarySearchAscending arr target 0 p = Some x"
    using binarySearchAscending_safe [of 0 p arr target] pk by auto
  obtain y where desc: "binarySearchDescending arr target (p + 1) (int (length arr) - 1) = Some y"
    using binarySearchDescending_safe [of "p + 1" "int (length arr) - 1" arr target] pk by auto
  have "int_op (p + 1) = Some (p + 1)"
    using pk len by (intro int_op_Some) auto
  then show ?thesis
    using ne pk asc desc len by (simp add: findTargetInMountainArray_def size_minus_one)
qed


text \<open>
  Claim C2, amended. For every mountain array of fewer than \<open>2 ^ 31\<close> elements and every
  target that occurs on the ascending side or on the descending side,
  \<open>findTargetInMountainArray\<close> returns an index \<open>i\<close> with \<open>arr[i] == target\<close>; for a target
  absent from both sides it returns \<open>- 1\<close>. On a side of a mountain every value occurs at
  most once.
\<close>

theorem findTargetInMountainArray_finds_target:
  assumes "mountain_at arr p" and "length arr < 2 ^ 31"
  shows "(target \<in> set arr \<longrightarrow>
            (\<exists>i < length arr. arr ! i = target
               \<and> findTargetInMountainArray arr target = Some (int i)))
       \<and> (target \<notin> set arr \<longrightarrow> findTargetInMountainArray arr target = Some (- 1))"
proof (intro conjI impI)
  assume "target \<in> set arr"
  then obtain k where k: "k < length arr" "arr ! k = target"
    by (auto simp: in_set_conv_nth)
  have p: "p < length arr" using assms(1) by (simp add: mountain_at_def)
  show "\<exists>i < length arr. arr ! i = target \<and> findTargetInMountainArray arr target = Some (int i)"
  proof (cases "\<exists>i \<le> p. arr ! i = target")
    case True
    then obtain i where i: "i \<le> p" "arr ! i = target" by blast
    then have "findTargetInMountainArray arr target = Some (int i)"
      using assms by (intro mountain_ascending_side)
    with i p show ?thesis by auto
  next
    case False
    then have miss: "\<And>i. i \<le> p \<Longrightarrow> arr ! i \<noteq> target" by blast
    with k have "p < k" by (cases "k \<le> p") auto
    then have "findTargetInMountainArray arr target = Some (int k)"
      using assms miss k by (intro mountain_descending_side [where p = p]) auto
    with k show ?thesis by auto
  qed
next
  assume "target \<notin> set arr"
  with assms show "findTargetInMountainArray arr target = Some (- 1)"
    by (intro mountain_absent)
qed

theorem findTargetInMountainArray_finds_target_witness:
  "mountain_at [1, 3, 5, 8, 7, 4, 2] 3
   \<and> length [1, 3, 5, 8, 7, 4, 2 :: int] < 2 ^ 31
   \<and> (\<exists>i < length [1, 3, 5, 8, 7, 4, 2 :: int]. [1, 3, 5, 8, 7, 4, 2 :: int] ! i = 4
         \<and> findTargetInMountainArray [1, 3, 5, 8, 7, 4, 2] 4 = Some (int i))
   \<and> findTargetInMountainArray [1, 3, 5, 8, 7, 4, 2] 6 = Some (- 1)"
proof -
  have m: "mountain_at [1, 3, 5, 8, 7, 4, 2] 3" by (simp add: mountain_at_def)
  have l: "length [1, 3, 5, 8, 7, 4, 2 :: int] < 2 ^ 31" by simp
  show ?thesis
    using findTargetInMountainArray_finds_target [OF m l, of 4]
      findTargetInMountainArray_finds_target [OF m l, of 6] m l
    by simp
qed

text \<open>
  Claim C2 as stated, for every mountain array, fails beyond the range of the \<open>int\<close>
  index. The \<open>2 ^ 31\<close> integers from \<open>- 5\<close> on followed by \<open>- 6\<close> are a mountain with its
  peak at index \<open>2147483647\<close> and the target \<open>0\<close> at index \<open>5\<close> of the ascending side.
  \<open>findPeakIndex\<close> returns \<open>0\<close>, the ascending search looks at index \<open>0\<close> only, and the
  descending search is given a range outside the vector: no index is returned, the
  behaviour is undefined.
\<close>

theorem mountain_search_faults_beyond_int_range:
  "mountain_at (ascending_from (- 5) 2147483648 @ [- 6]) 2147483647
   \<and> (ascending_from (- 5) 2147483648 @ [- 6]) ! 5 = 0
   \<and> findTargetInMountainArray (ascending_from (- 5) 2147483648 @ [- 6]) 0 = None"
proof -
  have l: "length (ascending_from (- 5) 2147483648) = 2147483648"
    by (rule length_ascending_from)
  have ne: "ascending_from (- 5) 2147483648 \<noteq> []" using l by auto
  have "last (ascending_from (- 5) 2147483648) = 2147483642"
    by (simp add: last_ascending_from)
  then have "mountain_at (ascending_from (- 5) 2147483648 @ [- 6])
               (length (ascending_from (- 5) 2147483648) - 1)"
    by (intro mountain_snoc sorted_ascending_from ne) simp
  then have m: "mountain_at (ascending_from (- 5) 2147483648 @ [- 6]) 2147483647"
    by (simp add: l)
  have n5: "(ascending_from (- 5) 2147483648 @ [- 6]) ! 5 = 0"
    by (simp add: nth_append l nth_ascending_from)
  have "(ascending_from (- 5) 2147483648 @ [- 6]) ! 0 < 0"
    by (simp add: nth_append l nth_ascending_from)
  then have "findTargetInMountainArray (ascending_from (- 5) 2147483648 @ [- 6]) 0 = None"
    by (intro huge_mountain_fault) (simp_all add: l)
  with m n5 show ?thesis by simp
qed




text \<open>
  Claim C9, amended. For the degenerate mountain arrays of fewer than \<open>2 ^ 31\<close> elements,
  strictly ascending (peak at the last index,
  such as \<open>[1, 2, 3, 4, 5]\<close>) or strictly descending (peak at index \<open>0\<close>, such as
  \<open>[5, 4, 3, 2, 1]\<close>), \<open>findPeakIndex\<close> returns that peak and every array access made by
  \<open>findTargetInMountainArray\<close>, through \<open>findPeakIndex\<close> and both half searches, is inside
  the array: the call returns a value, where a read outside the array or an iterator range
  outside it would have given \<open>None\<close>.
\<close>

theorem degenerate_mountain_accesses_in_bounds:
  assumes "arr \<noteq> []" and "length arr < 2 ^ 31"
    and "sorted_wrt (<) arr \<or> sorted_wrt (>) arr"
  shows "findPeakIndex arr = Some (if sorted_wrt (<) arr then int (length arr) - 1 else 0)
       \<and> (\<exists>r. findTargetInMountainArray arr target = Some r)"
proof
  show "\<exists>r. findTargetInMountainArray arr target = Some r"
    using assms(1,2) by (rule mountain_no_fault)
  show "findPeakIndex arr = Some (if sorted_wrt (<) arr then int (length arr) - 1 else 0)"
  proof (cases "sorted_wrt (<) arr")
    case True
    have "drop (length arr - 1) arr = [last arr]"
      using assms(1) by (metis append_butlast_last_id append_eq_conv_conj length_butlast)
    then have "mountain_at arr (length arr - 1)"
      using True assms(1) by (simp add: mountain_at_def)
    then have "findPeakIndex arr = Some (int (length arr - 1))"
      using assms(2) by (rule findPeakIndex_mountain)
    with True assms(1) show ?thesis
      by (simp add: of_nat_diff Suc_leI)
  next
    case False
    with assms(3) have "sorted_wrt (>) arr" by simp
    moreover have "sorted_wrt (<) (take (Suc 0) arr)"
      by (cases arr) simp_all
    ultimately have "mountain_at arr 0"
      using assms(1) by (simp add: mountain_at_def)
    then have "findPeakIndex arr = Some (int 0)"
      using assms(2) by (rule findPeakIndex_mountain)
    with False show ?thesis by simp
  qed
qed

theorem degenerate_mountain_accesses_in_bounds_witness:
  "[1, 2, 3, 4, 5 :: int] \<noteq> [] \<and> length [1, 2, 3, 4, 5 :: int] < 2 ^ 31
   \<and> sorted_wrt (<) [1, 2, 3, 4, 5 :: int] \<and> sorted_wrt (>) [5, 4, 3, 2, 1 :: int]
   \<and> findPeakIndex [1, 2, 3, 4, 5] = Some 4 \<and> findPeakIndex [5, 4, 3, 2, 1] = Some 0
   \<and> (\<exists>r. findTargetInMountainArray [1, 2, 3, 4, 5] 1 = Some r)
   \<and> (\<exists>r. findTargetInMountainArray [5, 4, 3, 2, 1] 3 = Some r)"
proof -
  have a: "[1, 2, 3, 4, 5 :: int] \<noteq> []" "length [1, 2, 3, 4, 5 :: int] < 2 ^ 31"
    "sorted_wrt (<) [1, 2, 3, 4, 5 :: int] \<or> sorted_wrt (>) [1, 2, 3, 4, 5 :: int]"
    by simp_all
  have d: "[5, 4, 3, 2, 1 :: int] \<noteq> []" "length [5, 4, 3, 2, 1 :: int] < 2 ^ 31"
    "sorted_wrt (<) [5, 4, 3, 2, 1 :: int] \<or> sorted_wrt (>) [5, 4, 3, 2, 1 :: int]"
    by simp_all
  show ?thesis
    using degenerate_mountain_accesses_in_bounds [OF a, of 1]
      degenerate_mountain_accesses_in_bounds [OF d, of 3]
    by simp
qed

text \<open>
  Claim C9 as stated, with no bound on the size, fails: on the strictly ascending array of
  the \<open>2 ^ 31 + 1\<close> integers from \<open>- 5\<close> on, \<open>findTargetInMountainArray\<close> hands the
  descending search a range outside the array.
\<close>

theorem degenerate_mountain_out_of_bounds_beyond_int_range:
  "sorted_wrt (<) (ascending_from (- 5) 2147483649)
   \<and> ascending_from (- 5) 2147483649 \<noteq> []
   \<and> findTargetInMountainArray (ascending_from (- 5) 2147483649) 0 = None"
proof -
  have "length (ascending_from (- 5) 2147483649) = 2147483649"
    by (rule length_ascending_from)
  moreover from this have "ascending_from (- 5) 2147483649 \<noteq> []" by auto
  moreover have "ascending_from (- 5) 2147483649 ! 0 < 0"
    by (simp add: nth_ascending_from)
  ultimately show ?thesis
    by (simp add: sorted_ascending_from huge_mountain_fault)
qed

section \<open>The validator\<close>



lemma remaining_push_left: "remaining None (push_left cur stack) = remaining cur stack"
  by (induction cur stack rule: push_left.induct) (simp_all add: remaining_def)

lemma push_left_empty: "push_left cur stack = [] \<longleftrightarrow> cur = None \<and> stack = []"
  by (induction cur stack rule: push_left.induct) simp_all

lemma isValidBST_loop_correct:
  "isValidBST_loop cur stack prev = Some (sorted_wrt (<) (seen prev @ remaining cur stack))"
proof (induction cur stack prev rule: isValidBST_loop.induct)
  case (1 cur stack prev)
  show ?case
  proof (cases "cur \<noteq> None \<or> stack \<noteq> []")
    case False
    then have "isValidBST_loop cur stack prev = Some True"
      by (subst isValidBST_loop.simps) simp
    with False show ?thesis
      by (cases prev) (simp_all add: remaining_def seen_def)
  next
    case True
    then obtain n rest where pl: "push_left cur stack = n # rest"
      using push_left_empty [of cur stack] by (cases "push_left cur stack") auto
    have rem: "remaining cur stack = val n # remaining (right n) rest"
      using remaining_push_left [of cur stack] pl by (simp add: remaining_def)
    show ?thesis
    proof (cases "case prev of None \<Rightarrow> False | Some p \<Rightarrow> val n \<le> val p")
      case bad: True
      then obtain p where p: "prev = Some p" "val n \<le> val p"
        by (cases prev) auto
      have "isValidBST_loop cur stack prev = Some False"
        using True pl bad by (subst isValidBST_loop.simps) auto
      moreover have "\<not> sorted_wrt (<) (seen prev @ remaining cur stack)"
        using p by (auto simp: seen_def rem)
      ultimately show ?thesis by simp
    next
      case good: False
      have step: "isValidBST_loop cur stack prev = isValidBST_loop (right n) rest (Some n)"
        using True pl good by (subst isValidBST_loop.simps) auto
      have ih: "isValidBST_loop (right n) rest (Some n)
                  = Some (sorted_wrt (<) (val n # remaining (right n) rest))"
        using "1.IH" [OF True pl good] by (simp add: seen_def)
      have "sorted_wrt (<) (seen prev @ remaining cur stack)
              = sorted_wrt (<) (val n # remaining (right n) rest)"
      proof (cases prev)
        case None
        then show ?thesis by (simp add: seen_def rem)
      next
        case (Some p)
        with good have "val p < val n" by simp
        then show ?thesis
          using Some by (auto simp: seen_def rem)
      qed
      with step ih show ?thesis by simp
    qed
  qed
qed

lemma isValidBST_correct: "isValidBST root = Some (sorted_wrt (<) (inorder root))"
  by (simp add: isValidBST_def isValidBST_loop_correct seen_def remaining_def)

text \<open>
  Claim C3. For every binary tree, \<open>isValidBST\<close> returns true exactly when the in-order
  value sequence of the tree is strictly increasing, and it returns true for the null tree.
\<close>

theorem isValidBST_iff_inorder_strictly_increasing:
  fixes root :: "'a::linorder TreeNode option"
  shows "isValidBST root = Some (sorted_wrt (<) (inorder root))
       \<and> isValidBST (None :: 'a TreeNode option) = Some True"
  using isValidBST_correct [of root] isValidBST_correct [of "None :: 'a TreeNode option"]
  by simp

theorem isValidBST_iff_inorder_strictly_increasing_witness:
  "isValidBST (Some (TreeNode (2 :: int) (Some (TreeNode 1 None None))
                       (Some (TreeNode 3 None None)))) = Some True
   \<and> isValidBST (Some (TreeNode (5 :: int) (Some (TreeNode 1 None None))
                       (Some (TreeNode 4 (Some (TreeNode 3 None None))
                                         (Some (TreeNode 6 None None)))))) = Some False"
  using isValidBST_iff_inorder_strictly_increasing
          [of "Some (TreeNode (2 :: int) (Some (TreeNode 1 None None))
                       (Some (TreeNode 3 None None)))"]
    isValidBST_iff_inorder_strictly_increasing
          [of "Some (TreeNode (5 :: int) (Some (TreeNode 1 None None))
                       (Some (TreeNode 4 (Some (TreeNode 3 None None))
                                         (Some (TreeNode 6 None None)))))"]
  by simp

section \<open>The builder\<close>

text \<open>Induction over a tree given by its root pointer.\<close>

lemma tree_induct [case_names Null Node]:
  assumes "P None" and "\<And>v l r. P l \<Longrightarrow> P r \<Longrightarrow> P (Some (TreeNode v l r))"
  shows "P t"
  by (rule inorder_node_inorder.induct(2) [where P = "\<lambda>n. P (Some n)" and Q = P]) (simp_all add: assms)

text \<open>
  Whatever the input, the subtree \<open>build\<close> returns is strictly ordered with its values
  inside the open interval of the call, and the cursor has advanced by its number of nodes.
\<close>

lemma build_bounds:
  "build nums i lo hi = (t, j) \<Longrightarrow>
     sorted_wrt (<) (inorder t) \<and> (\<forall>x \<in> set (inorder t). lo < x \<and> x < hi)"
proof (induction nums i lo hi arbitrary: t j rule: build.induct)
  case (1 nums index lo hi)
  show ?case
  proof (cases "int index \<ge> to_int32 (int (length nums)) \<or> nums ! index \<le> lo \<or> nums ! index \<ge> hi")
    case True
    then have "build nums index lo hi = (None, index)"
      by (subst build.simps) auto
    with "1.prems" show ?thesis by simp
  next
    case False
    define v where "v = nums ! index"
    obtain l i1 where L: "build nums (index + 1) lo v = (l, i1)" by force
    obtain r i2 where R: "build nums i1 v hi = (r, i2)" by force
    have t: "t = Some (TreeNode v l r)"
      using False L R "1.prems" by (subst (asm) build.simps) (auto simp: v_def Let_def)
    have c: "\<not> int index \<ge> to_int32 (int (length nums))" "\<not> (v \<le> lo \<or> v \<ge> hi)"
      using False by (auto simp: v_def)
    have ihl: "sorted_wrt (<) (inorder l) \<and> (\<forall>x \<in> set (inorder l). lo < x \<and> x < v)"
      using "1.IH"(1) [OF c(1) v_def c(2) L] .
    have ihr: "sorted_wrt (<) (inorder r) \<and> (\<forall>x \<in> set (inorder r). v < x \<and> x < hi)"
      using "1.IH"(2) [OF c(1) v_def c(2) L [symmetric] R] .
    show ?thesis
      using ihl ihr c(2) by (fastforce simp: t sorted_wrt_append)
  qed
qed


text \<open>
  On the pre-order sequence of a strictly ordered tree whose values lie inside the interval,
  followed by something at which \<open>build\<close> stops, \<open>build\<close> returns the tree.
\<close>

lemma length_preorder: "length (preorder t) = count_nodes t"
  by (induction t rule: tree_induct) simp_all

lemma set_preorder: "set (preorder t) = set (inorder t)"
  by (induction t rule: tree_induct) auto

lemma build_preorder:
  "sorted_wrt (<) (inorder t) \<Longrightarrow> \<forall>x \<in> set (inorder t). lo < x \<and> x < hi \<Longrightarrow>
   stops rest lo hi \<Longrightarrow> length (pre @ preorder t @ rest) < 2 ^ 31 \<Longrightarrow>
   build (pre @ preorder t @ rest) (length pre) lo hi = (t, length pre + count_nodes t)"
proof (induction t arbitrary: pre rest lo hi rule: tree_induct)
  case Null
  show ?case
  proof (cases rest)
    case Nil
    then show ?thesis
      using Null.prems(4) by (subst build.simps) (simp add: to_int32_id)
  next
    case (Cons x xs)
    then show ?thesis
      using Null.prems(3,4) by (subst build.simps) (auto simp: to_int32_id stops_def)
  qed
next
  case (Node v l r)
  define nums where "nums = pre @ v # preorder l @ preorder r @ rest"
  have nums: "pre @ preorder (Some (TreeNode v l r)) @ rest = nums"
    by (simp add: nums_def)
  have bound: "length nums < 2 ^ 31"
    using Node.prems(4) unfolding nums .
  have len: "to_int32 (int (length nums)) = int (length nums)"
    using bound by (intro to_int32_id) auto
  have inb: "length pre < length nums" by (simp add: nums_def)
  have v: "nums ! length pre = v" by (simp add: nums_def)
  have vb: "lo < v" "v < hi" using Node.prems(2) by auto
  have sl: "sorted_wrt (<) (inorder l)" "\<forall>x \<in> set (inorder l). lo < x \<and> x < v"
    and sr: "sorted_wrt (<) (inorder r)" "\<forall>x \<in> set (inorder r). v < x \<and> x < hi"
    using Node.prems(1,2) by (auto simp: sorted_wrt_append)
  have stop_r: "stops rest v hi"
    using Node.prems(3) vb by (auto simp: stops_def split: list.splits)
  have stop_l: "stops (preorder r @ rest) lo v"
  proof (cases "preorder r")
    case Nil
    then show ?thesis
      using Node.prems(3) vb by (auto simp: stops_def split: list.splits)
  next
    case (Cons y ys)
    then have "y \<in> set (inorder r)"
      using set_preorder [of r] by auto
    with sr(2) Cons show ?thesis by (auto simp: stops_def)
  qed
  have nl: "(pre @ [v]) @ preorder l @ (preorder r @ rest) = nums"
    by (simp add: nums_def)
  have nr: "(pre @ v # preorder l) @ preorder r @ rest = nums"
    by (simp add: nums_def)
  have L: "build nums (Suc (length pre)) lo v = (l, Suc (length pre + count_nodes l))"
    using Node.IH(1) [OF sl stop_l, of "pre @ [v]"] bound unfolding nl by simp
  have R: "build nums (Suc (length pre + count_nodes l)) v hi
             = (r, Suc (length pre + count_nodes l + count_nodes r))"
    using Node.IH(2) [OF sr stop_r, of "pre @ v # preorder l"] bound unfolding nr
    by (simp add: length_preorder)
  have "build nums (length pre) lo hi
          = (Some (TreeNode v l r), Suc (length pre + count_nodes l + count_nodes r))"
    using len inb vb by (subst build.simps) (simp add: v L R)
  then show ?case
    unfolding nums by simp
qed

lemma build_valid: "sorted_wrt (<) (inorder (fst (build nums i lo hi)))"
  using build_bounds [of nums i lo hi "fst (build nums i lo hi)" "snd (build nums i lo hi)"]
  by simp

text \<open>
  Claim C8. For every finite sequence of integers, whether or not it is the pre-order of a
  binary search tree, the tree returned by \<open>sortedArrayToBST\<close> has a strictly increasing
  in-order sequence, and \<open>isValidBST\<close> applied to it returns true.
\<close>

theorem sortedArrayToBST_builds_valid_bst:
  "sorted_wrt (<) (inorder (sortedArrayToBST nums))
   \<and> isValidBST (sortedArrayToBST nums) = Some True"
proof -
  have ordered: "sorted_wrt (<) (inorder (sortedArrayToBST nums))"
  proof (cases "nums = []")
    case True
    then show ?thesis by (simp add: sortedArrayToBST_def)
  next
    case False
    then have "sortedArrayToBST nums = fst (build nums 0 int_lowest int_max)"
      by (simp add: sortedArrayToBST_def)
    then show ?thesis by (simp add: build_valid)
  qed
  moreover have "isValidBST (sortedArrayToBST nums)
                   = Some (sorted_wrt (<) (inorder (sortedArrayToBST nums)))"
    by (rule isValidBST_correct)
  ultimately show ?thesis by simp
qed

theorem sortedArrayToBST_builds_valid_bst_witness:
  "inorder (sortedArrayToBST [5, 7, 6, 2, 8]) = [5, 6, 7]
   \<and> isValidBST (sortedArrayToBST [5, 7, 6, 2, 8]) = Some True"
proof -
  have "sortedArrayToBST [5, 7, 6, 2, 8]
          = Some (TreeNode 5 None (Some (TreeNode 7 (Some (TreeNode 6 None None)) None)))"
    by code_simp
  then show ?thesis
    using sortedArrayToBST_builds_valid_bst [of "[5, 7, 6, 2, 8]"] by simp
qed

lemma preorder_empty:
  assumes "preorder t = []"
  shows "t = None"
proof (cases t)
  case None
  then show ?thesis .
next
  case (Some n)
  with assms show ?thesis by (cases n) simp
qed

text \<open>
  Inside the bounds the builder does rebuild the tree. For a tree whose in-order sequence is
  strictly increasing, whose values lie strictly between \<open>int_lowest\<close> and \<open>int_max\<close> and
  which has fewer than \<open>2 ^ 31\<close> nodes, \<open>build\<close> on the pre-order sequence returns the tree
  and leaves the cursor at the end of the sequence.
\<close>

lemma build_preorder_inside_bounds:
  assumes "sorted_wrt (<) (inorder t)"
    and "\<forall>x \<in> set (inorder t). int_lowest < x \<and> x < int_max"
    and "count_nodes t < 2 ^ 31"
  shows "build (preorder t) 0 int_lowest int_max = (t, length (preorder t))"
    and "sortedArrayToBST (preorder t) = t"
proof -
  show b: "build (preorder t) 0 int_lowest int_max = (t, length (preorder t))"
    using build_preorder [of t int_lowest int_max "[]" "[]"] assms
    by (simp add: stops_def length_preorder)
  show "sortedArrayToBST (preorder t) = t"
  proof (cases "preorder t = []")
    case True
    then have "t = None" by (rule preorder_empty)
    with True show ?thesis by (simp add: sortedArrayToBST_def)
  next
    case False
    with b show ?thesis by (simp add: sortedArrayToBST_def)
  qed
qed

text \<open>
  Claim C4. Every pre-order sequence of a valid binary search tree is rebuilt by
  \<open>sortedArrayToBST\<close>, with the cursor finishing at the end of the sequence. The code does
  not do this for a tree that holds the greatest \<open>int\<close>: the one-node tree with value
  \<open>2147483647\<close> is a valid search tree with pre-order \<open>[2147483647]\<close>, but the guard
  \<open>val >= upper_bound\<close> rejects the value against the initial upper bound, so \<open>build\<close>
  returns the null tree and leaves the cursor at \<open>0\<close>.
\<close>

theorem sortedArrayToBST_rejects_greatest_int:
  "isValidBST (Some (TreeNode (2147483647 :: int) None None)) = Some True
   \<and> preorder (Some (TreeNode (2147483647 :: int) None None)) = [2147483647]
   \<and> build [2147483647] 0 int_lowest int_max = (None, 0)
   \<and> sortedArrayToBST [2147483647] = None"
proof -
  have "build [2147483647] 0 int_lowest int_max = (None, 0)"
    by (subst build.simps) (simp add: to_int32_def int_max_def)
  then show ?thesis
    by (simp add: isValidBST_correct sortedArrayToBST_def)
qed

text \<open>
  Claim C5. For every binary search tree with strictly ordered, duplicate-free values,
  \<open>isValidBST\<close> is true and the in-order sequence of \<open>sortedArrayToBST\<close> applied to the
  pre-order sequence is the in-order sequence of the tree. The code does not do this for a
  tree that holds the lowest \<open>int\<close>: for the tree with root \<open>5\<close> and left child
  \<open>- 2147483648\<close> the validator answers true, but the guard \<open>val <= lower_bound\<close> rejects
  the child against the initial lower bound and the rebuilt tree has the in-order sequence
  \<open>[5]\<close>.
\<close>

theorem roundtrip_loses_lowest_int:
  "isValidBST (Some (TreeNode (5 :: int) (Some (TreeNode (- 2147483648) None None)) None))
     = Some True
   \<and> inorder (Some (TreeNode (5 :: int) (Some (TreeNode (- 2147483648) None None)) None))
     = [- 2147483648, 5]
   \<and> inorder (sortedArrayToBST
        (preorder (Some (TreeNode (5 :: int) (Some (TreeNode (- 2147483648) None None)) None))))
     = [5]"
proof -
  have "sortedArrayToBST [5, - 2147483648] = Some (TreeNode 5 None None)"
    by code_simp
  then show ?thesis
    by (simp add: isValidBST_correct)
qed

section \<open>Empty input and termination\<close>

text \<open>
  Claim C6. On empty input \<open>search\<close> returns \<open>- 1\<close>, \<open>findTargetInMountainArray\<close> returns
  \<open>- 1\<close> and \<open>sortedArrayToBST\<close> returns the empty tree; none of the three faults.
\<close>

theorem empty_input_is_not_an_error:
  "search [] target = Some (- 1)
   \<and> findTargetInMountainArray [] target = Some (- 1)
   \<and> sortedArrayToBST [] = None"
proof -
  have "search_loop [] target 0 (- 1) = Some (- 1)"
    by (subst search_loop.simps) simp
  then show ?thesis
    by (simp add: search_def to_int32_def findTargetInMountainArray_def sortedArrayToBST_def)
qed

theorem empty_input_is_not_an_error_witness:
  "search [] 3 = Some (- 1) \<and> findTargetInMountainArray [] 3 = Some (- 1)
   \<and> sortedArrayToBST [] = None"
  using empty_input_is_not_an_error [of 3] by simp



















section \<open>The examples of the specification\<close>

lemma example_rotated:
  "search [4, 5, 6, 7, 0, 1, 2] 0 = Some 4"
  "search [4, 5, 6, 7, 0, 1, 2] 3 = Some (- 1)"
  "search [1] 0 = Some (- 1)"
  "search [1] 1 = Some 0"
  "search [3, 1] 1 = Some 1"
  by code_simp+

lemma example_mountain:
  "findTargetInMountainArray [1, 3, 5, 8, 7, 4, 2] 4 = Some 5"
  "findTargetInMountainArray [0, 1, 2, 4, 2, 1] 3 = Some (- 1)"
  "findTargetInMountainArray [1, 2, 3, 4, 5, 3, 1] 5 = Some 4"
  "findTargetInMountainArray [1, 2, 3, 4, 5] 1 = Some 0"
  "findTargetInMountainArray [5, 4, 3, 2, 1] 3 = Some 2"
  by code_simp+

lemma example_builder:
  "preorder (sortedArrayToBST [10, 5, 1, 7, 15, 12, 20]) = [10, 5, 1, 7, 15, 12, 20]"
  "snd (build [10, 5, 1, 7, 15, 12, 20] 0 int_lowest int_max) = 7"
  by code_simp+

end
